theory Spec2Isabelle
  imports Main "HOL-Library.Word"
begin

unbundle bit_operations_syntax

section \<open>Data model of package steg\<close>

text \<open>
  The repository holds two versions of package \<open>steg\<close>: the documented one (with the
  package example, the zero-length check and \<open>[8]bool\<close> buffers) and the one in
  \<open>steg/steg.go\<close>. The definitions below follow the documented version; where
  \<open>steg/steg.go\<close> differs in behaviour (\<open>before\<close>, the checks of \<open>Encode\<close> and
  \<open>Decode\<close>) its version is given next to it with the suffix \<open>_steg\<close>. The buffer
  \<open>tmp\<close> is a \<open>[]byte\<close> of length 8 holding 0 or 1 in \<open>steg/steg.go\<close>; it is
  modelled as the \<open>[8]bool\<close> of the documented version in both.

  Go's \<open>int\<close> is modelled by HOL's \<open>int\<close>: the coordinates of pixels, the image
  sizes and \<open>len(msg)*8\<close> stay far inside the 64-bit range for every image and message
  that fit in memory, and a start point outside the image is turned down by the bounds
  check whatever end was computed from it. Go's \<open>uint\<close> is the 64-bit word, so that
  the unsigned subtraction \<open>i-offset\<close> wraps as it does in Go. A \<open>byte\<close> is an 8-bit
  word, the channels returned by \<open>color.Color.RGBA\<close> are 32-bit words.
\<close>

type_synonym byte = "8 word"
type_synonym uint32 = "32 word"
type_synonym uint = "64 word"

text \<open>
  Errors as values. The first six are the errors the package creates itself
  (\<open>ErrMsgBit n\<close> is "msg bit out of bounds: got n, wanted 0-7 inclusive"); the next
  five are the errors handed up from \<open>filepath.Abs\<close>, \<open>os.Open\<close>, \<open>png.Decode\<close>,
  \<open>os.Create\<close> and \<open>png.Encode\<close>; the last two are Go's run-time panics for an index
  out of range and an integer division by zero.
\<close>

datatype error =
    ErrMsgBit int
  | ErrMsgZeroLength
  | ErrTypeAssertion
  | ErrStartOutOfBounds
  | ErrEndOutOfBounds
  | ErrNotBefore
  | ErrAbs
  | ErrOpen
  | ErrPngDecode
  | ErrCreate
  | ErrPngEncode
  | PanicIndexOutOfRange
  | PanicDivideByZero

text \<open>\<open>type Point struct { X int; Y int }\<close>; \<open>image.Point\<close> has the same shape.\<close>

record Point =
  X :: int
  Y :: int

text \<open>\<open>image.Rectangle { Min, Max Point }\<close>.\<close>

record Rectangle =
  MinP :: Point
  MaxP :: Point

text \<open>
  \<open>func (p1 *Point) before(p2 Point) bool\<close>: the documented version tests
  \<open>p1.Y >= p2.Y && p1.X > p2.X\<close>, the version in \<open>steg/steg.go\<close> tests
  \<open>p1.Y >= p2.Y && p1.X >= p2.X\<close>.
\<close>

definition before :: "Point \<Rightarrow> Point \<Rightarrow> bool" where
  "before p1 p2 = (if Y p1 \<ge> Y p2 \<and> X p1 > X p2 then False else True)"

definition before_steg :: "Point \<Rightarrow> Point \<Rightarrow> bool" where
  "before_steg p1 p2 = (if Y p1 \<ge> Y p2 \<and> X p1 \<ge> X p2 then False else True)"

text \<open>
  \<open>type Encoder struct { bit int }\<close>. The field is not exported, so outside the
  package an encoder is the zero value, changed by \<open>SetMsgBit\<close> only.
\<close>

record Encoder =
  bit_e :: int

definition zeroEncoder :: Encoder where
  "zeroEncoder = \<lparr>bit_e = 0\<rparr>"

text \<open>\<open>SetMsgBit\<close> returns the error (or nil) and the encoder it leaves behind.\<close>

definition SetMsgBit :: "Encoder \<Rightarrow> int \<Rightarrow> error option \<times> Encoder" where
  "SetMsgBit e n =
     (if n < 0 \<or> n > 7 then (Some (ErrMsgBit n), e)
      else (None, e\<lparr>bit_e := n\<rparr>))"

text \<open>A run of \<open>SetMsgBit\<close> calls on one encoder, whatever each call returns.\<close>

fun SetMsgBit_calls :: "Encoder \<Rightarrow> int list \<Rightarrow> Encoder" where
  "SetMsgBit_calls e [] = e"
| "SetMsgBit_calls e (n # ns) = SetMsgBit_calls (snd (SetMsgBit e n)) ns"

section \<open>Bit packing\<close>

text \<open>
  \<open>func pow(x, y int) int { return int(math.Pow(float64(x), float64(y))) }\<close>.
  The package calls it with base 2 and an exponent in 0..7 only (\<open>7-i\<close> for an index
  of an 8-element array, and the encoder's bit), where the floating-point power is
  exact; the model is the integer power.
\<close>

definition pow :: "int \<Rightarrow> int \<Rightarrow> int" where
  "pow x y = x ^ nat y"

text \<open>
  \<open>func byteToBits(bits *[8]bool, b byte)\<close>: the loop \<open>for i := range bits\<close> with
  the array and the residual byte as its state.
\<close>

fun byteToBits_loop :: "nat list \<Rightarrow> bool list \<times> byte \<Rightarrow> bool list \<times> byte" where
  "byteToBits_loop [] (bits, b) = (bits, b)"
| "byteToBits_loop (i # is) (bits, b) =
     (let pos = pow 2 (7 - int i) in
      if uint b - pos \<ge> 0
      then byteToBits_loop is (bits[i := True], b - word_of_int pos)
      else byteToBits_loop is (bits[i := False], b))"

definition byteToBits :: "bool list \<Rightarrow> byte \<Rightarrow> bool list" where
  "byteToBits bits b = fst (byteToBits_loop [0..<length bits] (bits, b))"

text \<open>\<open>func bitsToByte(bits [8]bool) (b byte)\<close>: \<open>for i, bit := range bits\<close>.\<close>

fun bitsToByte_loop :: "nat list \<Rightarrow> bool list \<Rightarrow> byte \<Rightarrow> byte" where
  "bitsToByte_loop [] bits b = b"
| "bitsToByte_loop (i # is) bits b =
     (let pos = pow 2 (7 - int i) in
      if bits ! i then bitsToByte_loop is bits (b + word_of_int pos)
      else bitsToByte_loop is bits b)"

definition bitsToByte :: "bool list \<Rightarrow> byte" where
  "bitsToByte bits = bitsToByte_loop [0..<length bits] bits 0"

text \<open>\<open>var tmp [8]bool\<close>: the zero value of the buffer.\<close>

definition zeroBits :: "bool list" where
  "zeroBits = replicate 8 False"

section \<open>Coordinate arithmetic and bounds\<close>

text \<open>Go's integer division truncates towards zero.\<close>

definition go_div :: "int \<Rightarrow> int \<Rightarrow> int" where
  "go_div a b = sgn a * sgn b * (\<bar>a\<bar> div \<bar>b\<bar>)"

definition inBounds :: "Rectangle \<Rightarrow> Point \<Rightarrow> bool" where
  "inBounds r p =
     (if X p < X (MinP r) then False
      else if Y p < Y (MinP r) then False
      else if X p \<ge> X (MaxP r) then False
      else if Y p \<ge> Y (MaxP r) then False
      else True)"

text \<open>
  \<open>func offsetFromMin(r image.Rectangle, p Point) uint\<close>; \<open>uint(n)\<close> of an \<open>int\<close> is
  \<open>word_of_int n\<close>.
\<close>

definition offsetFromMin :: "Rectangle \<Rightarrow> Point \<Rightarrow> uint" where
  "offsetFromMin r p =
     (let width = (word_of_int (X (MaxP r)) :: uint) - word_of_int (X (MinP r))
      in (word_of_int (Y p) * width) + word_of_int (X p))"

text \<open>
  \<open>func pointAtOffset(r image.Rectangle, p Point, offset int) Point\<close>. The division
  \<open>offset / width\<close> panics when the rectangle has width 0.
\<close>

definition pointAtOffset :: "Rectangle \<Rightarrow> Point \<Rightarrow> int \<Rightarrow> error + Point" where
  "pointAtOffset r p offset =
     (let width = X (MaxP r) - X (MinP r) in
      if width = 0 then Inl PanicDivideByZero
      else
        let rows = go_div offset width;
            p1 = p\<lparr>Y := Y p + rows\<rparr>;
            offset1 = offset - rows * width
        in if X p1 + offset1 > X (MaxP r)
           then
             (let p2 = p1\<lparr>Y := Y p1 + 1\<rparr>;
                  offset2 = offset1 - (X (MaxP r) - X p2);
                  p3 = p2\<lparr>X := X (MinP r)\<rparr>
              in Inr (p3\<lparr>X := X p3 + offset2\<rparr>))
           else Inr (p1\<lparr>X := X p1 + offset1\<rparr>))"

section \<open>Images\<close>

text \<open>\<open>color.RGBA { R, G, B, A uint8 }\<close>.\<close>

record RGBA =
  R :: byte
  G :: byte
  B :: byte
  A :: byte

text \<open>
  \<open>func (c RGBA) RGBA() (r, g, b, a uint32)\<close> of package \<open>image/color\<close>: each channel
  is widened to 16 bits by \<open>r = uint32(c.R); r |= r << 8\<close>.
\<close>

definition widen :: "byte \<Rightarrow> uint32" where
  "widen c = (let r = (ucast c :: uint32) in r OR push_bit 8 r)"

definition RGBA_of :: "RGBA \<Rightarrow> uint32 \<times> uint32 \<times> uint32 \<times> uint32" where
  "RGBA_of c = (widen (R c), widen (G c), widen (B c), widen (A c))"

text \<open>
  \<open>image.RGBA\<close>: the rectangle and the pixels, addressed by \<open>(x, y)\<close>. \<open>At\<close> gives
  the zero colour and \<open>Set\<close> does nothing outside the rectangle, as in package
  \<open>image\<close>; a \<open>color.RGBA\<close> is stored as it is.
\<close>

record Image =
  Rect :: Rectangle
  Pix :: "int \<times> int \<Rightarrow> RGBA"

definition In_rect :: "int \<Rightarrow> int \<Rightarrow> Rectangle \<Rightarrow> bool" where
  "In_rect x y r = (X (MinP r) \<le> x \<and> x < X (MaxP r) \<and> Y (MinP r) \<le> y \<and> y < Y (MaxP r))"

definition RGBA_At :: "Image \<Rightarrow> int \<Rightarrow> int \<Rightarrow> RGBA" where
  "RGBA_At img x y =
     (if \<not> In_rect x y (Rect img) then \<lparr>R = 0, G = 0, B = 0, A = 0\<rparr> else Pix img (x, y))"

definition RGBA_Set :: "Image \<Rightarrow> int \<Rightarrow> int \<Rightarrow> RGBA \<Rightarrow> Image" where
  "RGBA_Set img x y c =
     (if \<not> In_rect x y (Rect img) then img else img\<lparr>Pix := (Pix img)((x, y) := c)\<rparr>)"

section \<open>The pixel scan\<close>

text \<open>
  What one pass through a loop body leaves: the next iteration (also after
  \<open>continue\<close>), \<open>break outer\<close>, or a run-time panic.
\<close>

datatype 's flow = Next 's | BreakOuter 's | Panic error

text \<open>
  \<open>for v := lo; v < hi; v++ { body }\<close>. Both loops of the scan have this shape; the
  body of the outer one is the inner loop.
\<close>

function for_range :: "(int \<Rightarrow> 's \<Rightarrow> 's flow) \<Rightarrow> int \<Rightarrow> int \<Rightarrow> 's \<Rightarrow> 's flow" where
  "for_range body v hi s =
     (if v < hi then
        (case body v s of
           Next s' \<Rightarrow> for_range body (v + 1) hi s'
         | BreakOuter s' \<Rightarrow> BreakOuter s'
         | Panic err \<Rightarrow> Panic err)
      else Next s)"
  by pat_completeness auto
termination
  by (relation "measure (\<lambda>(body, v, hi, s). nat (hi - v))") auto

text \<open>
  \<open>for y := bounds.Min.Y; y < bounds.Max.Y; y++ { for x := bounds.Min.X; x < bounds.Max.X; x++ { body } }\<close>
\<close>

definition scan :: "Rectangle \<Rightarrow> (int \<Rightarrow> int \<Rightarrow> 's \<Rightarrow> 's flow) \<Rightarrow> 's \<Rightarrow> 's flow" where
  "scan bounds body s =
     for_range (\<lambda>y. for_range (\<lambda>x. body x y) (X (MinP bounds)) (X (MaxP bounds)))
       (Y (MinP bounds)) (Y (MaxP bounds)) s"

text \<open>The variables the loops of \<open>Encode\<close> change: \<open>i\<close>, \<open>tmp\<close> and the image.\<close>

record encode_vars =
  i_enc :: uint
  tmp_enc :: "bool list"
  img_enc :: Image

text \<open>
  The body of the inner loop of \<open>Encode\<close>. \<open>msg[(i-offset)/8]\<close> panics when the index
  is not below \<open>len(msg)\<close>; \<open>uint32(n)\<close> and \<open>byte(n)\<close> of an \<open>int\<close> are
  \<open>word_of_int n\<close>, \<open>byte(r)\<close> and \<open>uint8(r)\<close> of a \<open>uint32\<close> are \<open>ucast r\<close>.
  The buffer \<open>tmp\<close> has 8 elements throughout, so \<open>tmp[mod]\<close> is always in range.
\<close>

definition encode_body ::
  "Encoder \<Rightarrow> byte list \<Rightarrow> Point \<Rightarrow> Point \<Rightarrow> uint \<Rightarrow> int \<Rightarrow> int \<Rightarrow> encode_vars \<Rightarrow> encode_vars flow"
where
  "encode_body e msg start endp offset x y s =
     (if x < X start \<or> y < Y start then Next (s\<lparr>i_enc := i_enc s + 1\<rparr>)
      else if x = X endp \<and> y = Y endp then BreakOuter s
      else
        let m = i_enc s mod 8;
            k = unat ((i_enc s - offset) div 8)
        in if m = 0 \<and> \<not> k < length msg then Panic PanicIndexOutOfRange
           else
             let tmp = (if m = 0 then byteToBits (tmp_enc s) (msg ! k) else tmp_enc s);
                 (r, g, b, a) = RGBA_of (RGBA_At (img_enc s) x y);
                 r' = (if tmp ! unat m
                       then r OR word_of_int (pow 2 (bit_e e))
                       else ucast ((ucast r :: byte) AND NOT (word_of_int (pow 2 (bit_e e)))));
                 img' = RGBA_Set (img_enc s) x y
                          \<lparr>R = ucast r', G = ucast g, B = ucast b, A = ucast a\<rparr>
             in Next \<lparr>i_enc = i_enc s + 1, tmp_enc = tmp, img_enc = img'\<rparr>)"

text \<open>
  The part of \<open>Encode\<close> between the bounds checks and \<open>os.Create\<close>: the image the
  loops leave, or the panic.
\<close>

definition encode_scan ::
  "Encoder \<Rightarrow> byte list \<Rightarrow> Point \<Rightarrow> Point \<Rightarrow> Image \<Rightarrow> error + Image"
where
  "encode_scan e msg start endp img =
     (let bounds = Rect img;
          offset = offsetFromMin bounds start
      in case scan bounds (encode_body e msg start endp offset)
                \<lparr>i_enc = 0, tmp_enc = zeroBits, img_enc = img\<rparr> of
           Next s \<Rightarrow> Inr (img_enc s)
         | BreakOuter s \<Rightarrow> Inr (img_enc s)
         | Panic err \<Rightarrow> Inl err)"

text \<open>
  \<open>string(n)\<close> of a \<open>byte\<close> is Go's conversion of an integer to a string: the UTF-8
  encoding of the code point \<open>n\<close>, one byte below 128 and two bytes from 128 on.
\<close>

definition string_of_byte :: "byte \<Rightarrow> byte list" where
  "string_of_byte n =
     (if n < 0x80 then [n] else [0xC0 OR drop_bit 6 n, 0x80 OR (n AND 0x3F)])"

text \<open>The variables the loops of \<open>Decode\<close> change: \<open>i\<close>, \<open>tmp\<close> and \<open>msg\<close>.\<close>

record decode_vars =
  i_dec :: uint
  tmp_dec :: "bool list"
  msg_dec :: "byte list"

text \<open>
  The body of the inner loop of \<open>Decode\<close>: the payload bit of the pixel goes to
  \<open>tmp[mod]\<close>, and with \<open>mod == 8-1\<close> the byte of \<open>tmp\<close> is appended to \<open>msg\<close> by
  \<open>msg += string(n)\<close>.
\<close>

definition decode_body ::
  "Encoder \<Rightarrow> Image \<Rightarrow> Point \<Rightarrow> Point \<Rightarrow> int \<Rightarrow> int \<Rightarrow> decode_vars \<Rightarrow> decode_vars flow"
where
  "decode_body e img start endp x y s =
     (if x < X start \<or> y < Y start then Next (s\<lparr>i_dec := i_dec s + 1\<rparr>)
      else if x = X endp \<and> y = Y endp then BreakOuter s
      else
        let m = i_dec s mod 8;
            (r, g, b, a) = RGBA_of (RGBA_At img x y);
            tmp = (if (ucast r :: byte) AND word_of_int (pow 2 (bit_e e)) = 0
                   then (tmp_dec s)[unat m := False]
                   else (tmp_dec s)[unat m := True]);
            msg = (if m = 8 - 1 then msg_dec s @ string_of_byte (bitsToByte tmp)
                   else msg_dec s)
        in Next \<lparr>i_dec = i_dec s + 1, tmp_dec = tmp, msg_dec = msg\<rparr>)"

definition decode_scan :: "Encoder \<Rightarrow> Point \<Rightarrow> Point \<Rightarrow> Image \<Rightarrow> error + byte list" where
  "decode_scan e start endp img =
     (case scan (Rect img) (decode_body e img start endp)
             \<lparr>i_dec = 0, tmp_dec = zeroBits, msg_dec = []\<rparr> of
        Next s \<Rightarrow> Inr (msg_dec s)
      | BreakOuter s \<Rightarrow> Inr (msg_dec s)
      | Panic err \<Rightarrow> Inl err)"

section \<open>Files and the two entry points\<close>

text \<open>
  The file system and the PNG codec are outside the package; they are modelled as far
  as \<open>Encode\<close> and \<open>Decode\<close> use them. A file is a PNG that \<open>png.Decode\<close> returns as
  an \<open>*image.RGBA\<close> (its width, height and pixels), a PNG of another colour model, or
  something that is no PNG. \<open>png.Decode\<close> refuses a non-positive dimension and gives
  an image whose rectangle starts at \<open>(0, 0)\<close>. PNG is lossless: what \<open>png.Encode\<close>
  writes for such an image is read back as the same image.
\<close>

datatype disk_file = PngRGBA int int "int \<times> int \<Rightarrow> RGBA" | PngOther | NotPng

text \<open>An \<open>image.Image\<close> value: an \<open>*image.RGBA\<close> or an image of another type.\<close>

datatype image_value = RGBAImage Image | OtherImage

definition png_Decode :: "disk_file \<Rightarrow> error + image_value" where
  "png_Decode f =
     (case f of
        NotPng \<Rightarrow> Inl ErrPngDecode
      | PngOther \<Rightarrow> Inr OtherImage
      | PngRGBA wd ht pix \<Rightarrow>
          if wd \<le> 0 \<or> ht \<le> 0 then Inl ErrPngDecode
          else Inr (RGBAImage
                 \<lparr>Rect = \<lparr>MinP = \<lparr>X = 0, Y = 0\<rparr>, MaxP = \<lparr>X = wd, Y = ht\<rparr>\<rparr>, Pix = pix\<rparr>))"

definition png_Encode :: "Image \<Rightarrow> error + disk_file" where
  "png_Encode img =
     (let b = Rect img;
          wd = X (MaxP b) - X (MinP b);
          ht = Y (MaxP b) - Y (MinP b)
      in if wd \<le> 0 \<or> ht \<le> 0 then Inl ErrPngEncode
         else Inr (PngRGBA wd ht (\<lambda>(x, y). Pix img (X (MinP b) + x, Y (MinP b) + y))))"

text \<open>
  The world a call runs in: what \<open>filepath.Abs\<close> answers, the files by absolute path,
  which paths \<open>os.Create\<close> can create and \<open>png.Encode\<close> can write to the end, and
  the log of the files opened and created so far.
\<close>

datatype io_event = EvOpen string | EvCreate string

record World =
  absPath :: "string \<Rightarrow> string option"
  files :: "string \<Rightarrow> disk_file option"
  canCreate :: "string \<Rightarrow> bool"
  canWrite :: "string \<Rightarrow> bool"
  trace :: "io_event list"

text \<open>
  \<open>os.Open\<close>, \<open>png.Decode\<close> and the type assertion \<open>p.(*image.RGBA)\<close>, the lines that
  \<open>Encode\<close> and \<open>Decode\<close> have in common.
\<close>

definition openRGBA :: "string \<Rightarrow> World \<Rightarrow> (error + Image) \<times> World" where
  "openRGBA path w =
     (let w1 = w\<lparr>trace := trace w @ [EvOpen path]\<rparr> in
      case files w path of
        None \<Rightarrow> (Inl ErrOpen, w1)
      | Some f \<Rightarrow>
          (case png_Decode f of
             Inl err \<Rightarrow> (Inl err, w1)
           | Inr OtherImage \<Rightarrow> (Inl ErrTypeAssertion, w1)
           | Inr (RGBAImage img) \<Rightarrow> (Inr img, w1)))"

text \<open>
  \<open>os.Create\<close> and \<open>png.Encode\<close>, the end of \<open>Encode\<close>. \<open>os.Create\<close> truncates the
  file, so a failed \<open>png.Encode\<close> leaves a file that is no PNG.
\<close>

definition createPNG :: "string \<Rightarrow> Image \<Rightarrow> World \<Rightarrow> error option \<times> World" where
  "createPNG path img w =
     (let w1 = w\<lparr>trace := trace w @ [EvCreate path]\<rparr> in
      if \<not> canCreate w path then (Some ErrCreate, w1)
      else
        case (if canWrite w path then png_Encode img else Inl ErrPngEncode) of
          Inl err \<Rightarrow> (Some err, w1\<lparr>files := (files w1)(path \<mapsto> NotPng)\<rparr>)
        | Inr f \<Rightarrow> (None, w1\<lparr>files := (files w1)(path \<mapsto> f)\<rparr>))"

text \<open>
  \<open>Encode\<close> as in \<open>steg/steg.go\<close>, which has no check of the length of \<open>msg\<close>. On an
  error the model returns the error alone (Go returns \<open>end\<close> beside it).
\<close>

definition Encode_steg ::
  "Encoder \<Rightarrow> string \<Rightarrow> string \<Rightarrow> byte list \<Rightarrow> Point \<Rightarrow> World \<Rightarrow> (error + Point) \<times> World"
where
  "Encode_steg e src dst msg start w =
     (case absPath w src of
        None \<Rightarrow> (Inl ErrAbs, w)
      | Some src' \<Rightarrow>
     (case absPath w dst of
        None \<Rightarrow> (Inl ErrAbs, w)
      | Some dst' \<Rightarrow>
     (case openRGBA src' w of
        (Inl err, w1) \<Rightarrow> (Inl err, w1)
      | (Inr img, w1) \<Rightarrow>
     (let bounds = Rect img in
      case pointAtOffset bounds start (int (length msg) * 8) of
        Inl err \<Rightarrow> (Inl err, w1)
      | Inr endp \<Rightarrow>
          if \<not> inBounds bounds start then (Inl ErrStartOutOfBounds, w1)
          else if \<not> inBounds bounds endp then (Inl ErrEndOutOfBounds, w1)
          else
            (case encode_scan e msg start endp img of
               Inl err \<Rightarrow> (Inl err, w1)
             | Inr img' \<Rightarrow>
                 (case createPNG dst' img' w1 of
                    (Some err, w2) \<Rightarrow> (Inl err, w2)
                  | (None, w2) \<Rightarrow> (Inr endp, w2)))))))"

text \<open>
  \<open>Encode\<close> of the documented version: the check \<open>len(msg) == 0\<close> comes first, the
  rest of the function is the same.
\<close>

definition Encode ::
  "Encoder \<Rightarrow> string \<Rightarrow> string \<Rightarrow> byte list \<Rightarrow> Point \<Rightarrow> World \<Rightarrow> (error + Point) \<times> World"
where
  "Encode e src dst msg start w =
     (if length msg = 0 then (Inl ErrMsgZeroLength, w)
      else Encode_steg e src dst msg start w)"

text \<open>
  \<open>Decode\<close> of the documented version: \<open>start.before(end)\<close> is checked before the file is
  touched.
\<close>

definition Decode ::
  "Encoder \<Rightarrow> string \<Rightarrow> Point \<Rightarrow> Point \<Rightarrow> World \<Rightarrow> (error + byte list) \<times> World"
where
  "Decode e src start endp w =
     (if \<not> before start endp then (Inl ErrNotBefore, w)
      else
     (case absPath w src of
        None \<Rightarrow> (Inl ErrAbs, w)
      | Some src' \<Rightarrow>
     (case openRGBA src' w of
        (Inl err, w1) \<Rightarrow> (Inl err, w1)
      | (Inr img, w1) \<Rightarrow>
     (let bounds = Rect img in
      if \<not> inBounds bounds start then (Inl ErrStartOutOfBounds, w1)
      else if \<not> inBounds bounds endp then (Inl ErrEndOutOfBounds, w1)
      else (decode_scan e start endp img, w1)))))"

text \<open>
  \<open>Decode\<close> as in \<open>steg/steg.go\<close>: the file is opened and decoded first, and the
  order of the points is checked with the \<open>>=\<close> version of \<open>before\<close>.
\<close>

definition Decode_steg ::
  "Encoder \<Rightarrow> string \<Rightarrow> Point \<Rightarrow> Point \<Rightarrow> World \<Rightarrow> (error + byte list) \<times> World"
where
  "Decode_steg e src start endp w =
     (case absPath w src of
        None \<Rightarrow> (Inl ErrAbs, w)
      | Some src' \<Rightarrow>
     (case openRGBA src' w of
        (Inl err, w1) \<Rightarrow> (Inl err, w1)
      | (Inr img, w1) \<Rightarrow>
     (let bounds = Rect img in
      if \<not> before_steg start endp then (Inl ErrNotBefore, w1)
      else if \<not> inBounds bounds start then (Inl ErrStartOutOfBounds, w1)
      else if \<not> inBounds bounds endp then (Inl ErrEndOutOfBounds, w1)
      else (decode_scan e start endp img, w1))))"

section \<open>Example inputs\<close>

text \<open>
  A world with one file, \<open>/in.png\<close>: an opaque black image of the given size. Paths
  are absolute already, every file can be created and written.
\<close>

definition blackPix :: "int \<times> int \<Rightarrow> RGBA" where
  "blackPix = (\<lambda>_. \<lparr>R = 0, G = 0, B = 0, A = 255\<rparr>)"

definition blackWorld :: "int \<Rightarrow> int \<Rightarrow> World" where
  "blackWorld wd ht =
     \<lparr>absPath = (\<lambda>p. Some p),
      files = [''/in.png'' \<mapsto> PngRGBA wd ht blackPix],
      canCreate = (\<lambda>_. True),
      canWrite = (\<lambda>_. True),
      trace = []\<rparr>"

text \<open>The red channel of pixel \<open>(x, y)\<close> of the PNG file at a path, if there is one.\<close>

definition redAt :: "World \<Rightarrow> string \<Rightarrow> int \<Rightarrow> int \<Rightarrow> byte option" where
  "redAt w path x y =
     (case files w path of
        Some (PngRGBA wd ht pix) \<Rightarrow> Some (R (pix (x, y)))
      | _ \<Rightarrow> None)"

text \<open>
  What \<open>Encode\<close> must leave alone, as far as the loops guarantee it: the rectangle,
  the green, blue and alpha channel of every pixel, and every pixel that lies left of
  the column of \<open>start\<close>, above its row, or outside the rectangle.
\<close>

definition frame_ok :: "Point \<Rightarrow> Image \<Rightarrow> Image \<Rightarrow> bool" where
  "frame_ok start img img' =
     (Rect img' = Rect img \<and>
      (\<forall>x y. G (Pix img' (x, y)) = G (Pix img (x, y)) \<and>
             B (Pix img' (x, y)) = B (Pix img (x, y)) \<and>
             A (Pix img' (x, y)) = A (Pix img (x, y)) \<and>
             (x < X start \<or> y < Y start \<or> \<not> In_rect x y (Rect img)
                \<longrightarrow> Pix img' (x, y) = Pix img (x, y))))"

text \<open>
  The payload bit of a pixel: the bit of its red channel that the encoder is set to.
\<close>

definition payload_bit :: "Encoder \<Rightarrow> RGBA \<Rightarrow> bool" where
  "payload_bit e c = bit (R c) (nat (bit_e e))"

text \<open>Bit \<open>d\<close> of a message, counted from the first byte, most significant bit first.\<close>

definition msg_bit :: "byte list \<Rightarrow> int \<Rightarrow> bool" where
  "msg_bit msg d = bit (msg ! nat (d div 8)) (7 - nat (d mod 8))"

text \<open>
  An image of width \<open>W\<close> carries the message up to \<open>L\<close>: the pixels from the linear,
  row-major position \<open>off\<close> up to \<open>L\<close> (excluded) hold the message bits in their
  payload bit.
\<close>

definition carries :: "Encoder \<Rightarrow> byte list \<Rightarrow> int \<Rightarrow> int \<Rightarrow> int \<Rightarrow> Image \<Rightarrow> bool" where
  "carries e msg W off L img =
     (\<forall>p. off \<le> p \<and> p < L \<longrightarrow>
        payload_bit e (Pix img (p mod W, p div W)) = msg_bit msg (p - off))"

text \<open>
  The states of the two scans when they arrive at the linear position \<open>L\<close>, for a
  message written from position \<open>off\<close>: the counter is \<open>L\<close>; \<open>Encode\<close> holds the
  bits of the current byte in \<open>tmp\<close> and has written the pixels before \<open>L\<close>;
  \<open>Decode\<close> has put out the bytes that are complete and holds the bits of the next
  one read so far.
\<close>

definition enc_inv ::
  "Encoder \<Rightarrow> byte list \<Rightarrow> Rectangle \<Rightarrow> int \<Rightarrow> int \<Rightarrow> int \<Rightarrow> encode_vars \<Rightarrow> bool" where
  "enc_inv e msg r W off L t =
     (i_enc t = word_of_int L \<and> length (tmp_enc t) = 8 \<and> Rect (img_enc t) = r \<and>
      (off < L \<longrightarrow> (\<forall>j<8. tmp_enc t ! j = bit (msg ! nat ((L - 1 - off) div 8)) (7 - j))) \<and>
      carries e msg W off L (img_enc t))"

definition dec_inv :: "byte list \<Rightarrow> int \<Rightarrow> int \<Rightarrow> decode_vars \<Rightarrow> bool" where
  "dec_inv msg off L t =
     (i_dec t = word_of_int L \<and> length (tmp_dec t) = 8 \<and>
      msg_dec t = take (nat ((L - off) div 8)) msg \<and>
      (off \<le> L \<longrightarrow>
         (\<forall>j. j < nat ((L - off) mod 8) \<longrightarrow>
            tmp_dec t ! j = bit (msg ! nat ((L - off) div 8)) (7 - j))))"

section \<open>SetMsgBit\<close>

lemma SetMsgBit_calls_range:
  "0 \<le> bit_e e \<and> bit_e e \<le> 7 \<Longrightarrow>
   0 \<le> bit_e (SetMsgBit_calls e ns) \<and> bit_e (SetMsgBit_calls e ns) \<le> 7"
  by (induction ns arbitrary: e) (auto simp: SetMsgBit_def)

text \<open>
  C10. The bit of an encoder is 0 at first; \<open>SetMsgBit n\<close> with \<open>n\<close> in 0..7 stores
  \<open>n\<close> and returns no error; with \<open>n\<close> below 0 or above 7 it returns the
  out-of-bounds error and leaves the encoder as it was; so after any run of
  \<open>SetMsgBit\<close> calls the bit is in 0..7.
\<close>

theorem SetMsgBit_keeps_bit_in_range:
  "bit_e zeroEncoder = 0 \<and>
   (0 \<le> n \<and> n \<le> 7 \<longrightarrow> SetMsgBit e n = (None, e\<lparr>bit_e := n\<rparr>)) \<and>
   (n < 0 \<or> n > 7 \<longrightarrow> SetMsgBit e n = (Some (ErrMsgBit n), e)) \<and>
   0 \<le> bit_e (SetMsgBit_calls zeroEncoder ns) \<and>
   bit_e (SetMsgBit_calls zeroEncoder ns) \<le> 7"
  using SetMsgBit_calls_range[of zeroEncoder ns]
  by (auto simp: SetMsgBit_def zeroEncoder_def)

theorem SetMsgBit_keeps_bit_in_range_witness:
  "SetMsgBit zeroEncoder 7 = (None, \<lparr>bit_e = 7\<rparr>) \<and>
   SetMsgBit \<lparr>bit_e = 7\<rparr> 8 = (Some (ErrMsgBit 8), \<lparr>bit_e = 7\<rparr>) \<and>
   bit_e (SetMsgBit_calls zeroEncoder [7, 9, - 1, 3, 8]) = 3"
  using SetMsgBit_keeps_bit_in_range[of 7 zeroEncoder "[]"]
    SetMsgBit_keeps_bit_in_range[of 8 "\<lparr>bit_e = 7\<rparr>" "[7, 9, - 1, 3, 8]"]
  by (simp add: zeroEncoder_def SetMsgBit_def)

section \<open>Bit packing is invertible\<close>

lemma uint_take_bit_Suc:
  "uint (take_bit (Suc n) (w::'a::len word)) = 2 ^ n * of_bool (bit w n) + uint (take_bit n w)"
proof -
  have "bit (uint w) n = bit w n"
    by (auto simp: bit_uint_iff dest: bit_imp_le_length)
  then show ?thesis
    by (simp add: unsigned_take_bit_eq take_bit_Suc_from_most)
qed

lemma word_take_bit_Suc:
  "take_bit (Suc n) (w::'a::len word) = 2 ^ n * of_bool (bit w n) + take_bit n w"
proof -
  have "word_of_int (uint (take_bit (Suc n) w)) =
        (word_of_int (2 ^ n * of_bool (bit w n) + uint (take_bit n w)) :: 'a word)"
    by (simp only: uint_take_bit_Suc)
  then show ?thesis
    by simp
qed

lemma uint_take_bit_bounds:
  "0 \<le> uint (take_bit n (w::'a::len word))" "uint (take_bit n w) < 2 ^ n"
  by (simp_all add: unsigned_take_bit_eq)

lemma weight_fits_iff_bit: "(2 ^ n \<le> uint (take_bit (Suc n) (w::byte))) = bit w n"
  using uint_take_bit_bounds[of n w] by (simp add: uint_take_bit_Suc)

text \<open>
  One pass of the loop of \<open>byteToBits\<close> at index \<open>k\<close>, when the residual byte is the
  low \<open>8 - k\<close> bits of \<open>b\<close>: it stores bit \<open>7 - k\<close> of \<open>b\<close> and leaves the low
  \<open>7 - k\<close> bits.
\<close>

lemma byteToBits_loop_step:
  assumes "k < 8"
  shows "byteToBits_loop (k # ks) (bits, take_bit (8 - k) b) =
         byteToBits_loop ks (bits[k := bit b (7 - k)], take_bit (7 - k) b)"
proof -
  have k: "8 - k = Suc (7 - k)" "nat (7 - int k) = 7 - k"
    using assms by auto
  show ?thesis
  proof (cases "bit b (7 - k)")
    case True
    then have "take_bit (Suc (7 - k)) b - 2 ^ (7 - k) = take_bit (7 - k) b"
      by (simp add: word_take_bit_Suc[of "7 - k" b])
    with True show ?thesis
      by (simp add: k pow_def Let_def weight_fits_iff_bit)
  next
    case False
    then have "take_bit (Suc (7 - k)) b = take_bit (7 - k) b"
      by (simp add: word_take_bit_Suc[of "7 - k" b])
    with False show ?thesis
      by (simp add: k pow_def Let_def weight_fits_iff_bit[of "7 - k" b, symmetric])
  qed
qed

lemma byteToBits_loop_nth:
  assumes "k \<le> 8" "length bits = 8"
  shows "length (fst (byteToBits_loop [k..<8] (bits, take_bit (8 - k) b))) = 8 \<and>
     (\<forall>j<8. fst (byteToBits_loop [k..<8] (bits, take_bit (8 - k) b)) ! j =
         (if j < k then bits ! j else bit b (7 - j)))"
  using assms
proof (induction "8 - k" arbitrary: k bits)
  case 0
  then show ?case by simp
next
  case (Suc m)
  then have k: "k < 8" by auto
  have upt: "[k..<8] = k # [Suc k..<8]"
    using k by (simp add: upt_conv_Cons)
  show ?case
    using Suc.hyps(1)[of "Suc k" "bits[k := bit b (7 - k)]"] Suc.hyps(2) Suc.prems k
    by (simp add: upt byteToBits_loop_step nth_list_update less_Suc_eq
        del: byteToBits_loop.simps)
qed

lemma byteToBits_nth:
  assumes "length bits = 8"
  shows "length (byteToBits bits b) = 8"
    and "j < 8 \<Longrightarrow> byteToBits bits b ! j = bit b (7 - j)"
proof -
  have "take_bit 8 b = b"
    by (rule take_bit_word_eq_self) simp
  then have *: "length (fst (byteToBits_loop [0..<8] (bits, b))) = 8 \<and>
     (\<forall>j<8. fst (byteToBits_loop [0..<8] (bits, b)) ! j = bit b (7 - j))"
    using byteToBits_loop_nth[of 0 bits b] assms by simp
  show "length (byteToBits bits b) = 8"
    using * assms by (simp add: byteToBits_def)
  show "j < 8 \<Longrightarrow> byteToBits bits b ! j = bit b (7 - j)"
    using * assms by (simp add: byteToBits_def)
qed

lemma bitsToByte_loop_step:
  assumes "k < 8"
  shows "bitsToByte_loop (k # ks) bits acc =
         bitsToByte_loop ks bits (acc + 2 ^ (7 - k) * of_bool (bits ! k))"
  using assms by (simp add: pow_def Let_def nat_diff_distrib)

lemma bitsToByte_loop_sum:
  assumes "k \<le> 8" "\<forall>j<8. k \<le> j \<longrightarrow> bits ! j = bit b (7 - j)"
  shows "bitsToByte_loop [k..<8] bits acc = acc + take_bit (8 - k) b"
  using assms
proof (induction "8 - k" arbitrary: k acc)
  case 0
  then show ?case by simp
next
  case (Suc m)
  then have k: "k < 8" by auto
  have k8: "8 - k = Suc (7 - k)"
    using k by simp
  have upt: "[k..<8] = k # [Suc k..<8]"
    using k by (simp add: upt_conv_Cons)
  have "bitsToByte_loop [Suc k..<8] bits (acc + 2 ^ (7 - k) * of_bool (bits ! k)) =
        (acc + 2 ^ (7 - k) * of_bool (bits ! k)) + take_bit (8 - Suc k) b"
    using Suc.hyps(1)[of "Suc k"] Suc.hyps(2) Suc.prems k by simp
  moreover have "bits ! k = bit b (7 - k)"
    using Suc.prems k by simp
  ultimately show ?case
    by (simp add: upt bitsToByte_loop_step k word_take_bit_Suc[of "7 - k" b] k8
        del: bitsToByte_loop.simps)
qed

lemma bitsToByte_bits_of:
  assumes "length bits = 8" "\<forall>j<8. bits ! j = bit b (7 - j)"
  shows "bitsToByte bits = b"
proof -
  have "take_bit 8 b = b"
    by (rule take_bit_word_eq_self) simp
  moreover have "bitsToByte_loop [0..<8] bits 0 = 0 + take_bit (8 - 0) b"
    by (rule bitsToByte_loop_sum) (simp_all add: assms)
  ultimately show ?thesis
    by (simp add: bitsToByte_def assms(1))
qed

text \<open>
  C9. For every byte \<open>b\<close> and every 8-element buffer, \<open>byteToBits\<close> fills the buffer
  with the bits of \<open>b\<close>, most significant first, and \<open>bitsToByte\<close> of that buffer is
  \<open>b\<close> again.
\<close>

theorem bitsToByte_byteToBits:
  "length bits = 8 \<Longrightarrow> bitsToByte (byteToBits bits b) = b"
  by (rule bitsToByte_bits_of) (simp_all add: byteToBits_nth)

theorem bitsToByte_byteToBits_witness:
  "length zeroBits = 8 \<and> bitsToByte (byteToBits zeroBits 200) = 200"
  using bitsToByte_byteToBits[of zeroBits 200] by (simp add: zeroBits_def)

section \<open>Coordinate arithmetic\<close>

text \<open>
  C3, as the specification states it: in a 10 by 10 rectangle at the origin, 16 bits
  on from \<open>(8, 0)\<close> is \<open>(6, 1)\<close>. The function does not return that.
\<close>

theorem pointAtOffset_row_wrap_not_6_1:
  "pointAtOffset \<lparr>MinP = \<lparr>X = 0, Y = 0\<rparr>, MaxP = \<lparr>X = 10, Y = 10\<rparr>\<rparr> \<lparr>X = 8, Y = 0\<rparr> 16
     \<noteq> Inr \<lparr>X = 6, Y = 1\<rparr>"
  by (simp add: pointAtOffset_def go_div_def Let_def)

text \<open>
  C3, amended: in a 10 by 10 rectangle at the origin, 16 bits on from \<open>(8, 0)\<close> is
  \<open>(4, 2)\<close>: pixel 8 + 16 = 24 in row-major order.
\<close>

theorem pointAtOffset_row_wrap:
  "pointAtOffset \<lparr>MinP = \<lparr>X = 0, Y = 0\<rparr>, MaxP = \<lparr>X = 10, Y = 10\<rparr>\<rparr> \<lparr>X = 8, Y = 0\<rparr> 16
     = Inr \<lparr>X = 4, Y = 2\<rparr>"
  by (simp add: pointAtOffset_def go_div_def Let_def)

text \<open>
  What \<open>offsetFromMin\<close> computes for every rectangle and point: row times width plus
  column, counted from \<open>(0, 0)\<close> and not from the minimum of the rectangle.
\<close>

lemma offsetFromMin_eq:
  "offsetFromMin r p = word_of_int (Y p * (X (MaxP r) - X (MinP r)) + X p)"
  by (simp add: offsetFromMin_def)


section \<open>Checks of Encode\<close>



text \<open>
  The version in \<open>steg/steg.go\<close> has no such check: with an empty message it opens
  the source, writes the destination and returns \<open>start\<close> as the end.
\<close>

lemma Encode_steg_accepts_empty_message:
  "fst (Encode_steg zeroEncoder ''/in.png'' ''/out.png'' [] \<lparr>X = 0, Y = 0\<rparr> (blackWorld 1 1))
     = Inr \<lparr>X = 0, Y = 0\<rparr> \<and>
   trace (snd (Encode_steg zeroEncoder ''/in.png'' ''/out.png'' [] \<lparr>X = 0, Y = 0\<rparr>
                 (blackWorld 1 1)))
     = [EvOpen ''/in.png'', EvCreate ''/out.png'']"
  by code_simp

lemma pointAtOffset_total:
  "X (MaxP r) - X (MinP r) \<noteq> 0 \<Longrightarrow> \<exists>endp. pointAtOffset r p n = Inr endp"
  by (simp add: pointAtOffset_def Let_def)

lemma openRGBA_PngRGBA:
  assumes "files w path = Some (PngRGBA wd ht pix)" "0 < wd" "0 < ht"
  shows "openRGBA path w =
    (Inr \<lparr>Rect = \<lparr>MinP = \<lparr>X = 0, Y = 0\<rparr>, MaxP = \<lparr>X = wd, Y = ht\<rparr>\<rparr>, Pix = pix\<rparr>,
     w\<lparr>trace := trace w @ [EvOpen path]\<rparr>)"
  using assms by (simp add: openRGBA_def png_Decode_def Let_def)

text \<open>
  C7. Let the message be non-empty and the source be a PNG that decodes to an RGBA
  image of width \<open>wd\<close> and height \<open>ht\<close>. Then the end point is computed, and: if
  \<open>start\<close> is outside the image rectangle, \<open>Encode\<close> returns the start-out-of-bounds
  error; if \<open>start\<close> is inside and the end point is outside, it returns the
  end-out-of-bounds error. In both cases the world it leaves differs from the one it
  found only by the log entry for opening the source: no file is changed or created.
\<close>

theorem Encode_rejects_out_of_bounds:
  assumes "msg \<noteq> []" "absPath w src = Some src'" "absPath w dst = Some dst'"
    "files w src' = Some (PngRGBA wd ht pix)" "0 < wd" "0 < ht"
  shows "\<exists>endp.
     pointAtOffset \<lparr>MinP = \<lparr>X = 0, Y = 0\<rparr>, MaxP = \<lparr>X = wd, Y = ht\<rparr>\<rparr> start
       (int (length msg) * 8) = Inr endp \<and>
     (\<not> inBounds \<lparr>MinP = \<lparr>X = 0, Y = 0\<rparr>, MaxP = \<lparr>X = wd, Y = ht\<rparr>\<rparr> start \<longrightarrow>
        Encode e src dst msg start w
          = (Inl ErrStartOutOfBounds, w\<lparr>trace := trace w @ [EvOpen src']\<rparr>)) \<and>
     (inBounds \<lparr>MinP = \<lparr>X = 0, Y = 0\<rparr>, MaxP = \<lparr>X = wd, Y = ht\<rparr>\<rparr> start \<and>
      \<not> inBounds \<lparr>MinP = \<lparr>X = 0, Y = 0\<rparr>, MaxP = \<lparr>X = wd, Y = ht\<rparr>\<rparr> endp \<longrightarrow>
        Encode e src dst msg start w
          = (Inl ErrEndOutOfBounds, w\<lparr>trace := trace w @ [EvOpen src']\<rparr>))"
proof -
  let ?r = "\<lparr>MinP = \<lparr>X = 0, Y = 0\<rparr>, MaxP = \<lparr>X = wd, Y = ht\<rparr>\<rparr>"
  obtain endp where endp: "pointAtOffset ?r start (int (length msg) * 8) = Inr endp"
    using pointAtOffset_total[of ?r start "int (length msg) * 8"] assms(5) by auto
  show ?thesis
    using assms(1,2,3) endp openRGBA_PngRGBA[OF assms(4,5,6)]
    by (auto simp: Encode_def Encode_steg_def Let_def)
qed

theorem Encode_rejects_out_of_bounds_witness:
  "fst (Encode zeroEncoder ''/in.png'' ''/out.png'' [0x48, 0x69] \<lparr>X = 8, Y = 9\<rparr>
          (blackWorld 10 10)) = Inl ErrEndOutOfBounds \<and>
   files (snd (Encode zeroEncoder ''/in.png'' ''/out.png'' [0x48, 0x69] \<lparr>X = 8, Y = 9\<rparr>
          (blackWorld 10 10))) = files (blackWorld 10 10) \<and>
   trace (snd (Encode zeroEncoder ''/in.png'' ''/out.png'' [0x48, 0x69] \<lparr>X = 8, Y = 9\<rparr>
          (blackWorld 10 10))) = [EvOpen ''/in.png''] \<and>
   fst (Encode zeroEncoder ''/in.png'' ''/out.png'' [0x48, 0x69] \<lparr>X = 10, Y = 0\<rparr>
          (blackWorld 10 10)) = Inl ErrStartOutOfBounds \<and>
   files (snd (Encode zeroEncoder ''/in.png'' ''/out.png'' [0x48, 0x69] \<lparr>X = 10, Y = 0\<rparr>
          (blackWorld 10 10))) = files (blackWorld 10 10)"
  using
    Encode_rejects_out_of_bounds[of "[0x48, 0x69]" "blackWorld 10 10" "''/in.png''"
      "''/in.png''" "''/out.png''" "''/out.png''" 10 10 blackPix "\<lparr>X = 8, Y = 9\<rparr>" zeroEncoder]
    Encode_rejects_out_of_bounds[of "[0x48, 0x69]" "blackWorld 10 10" "''/in.png''"
      "''/in.png''" "''/out.png''" "''/out.png''" 10 10 blackPix "\<lparr>X = 10, Y = 0\<rparr>" zeroEncoder]
  by (simp add: blackWorld_def pointAtOffset_def go_div_def inBounds_def Let_def)

section \<open>The order check of Decode\<close>

lemma before_iff: "before p1 p2 = (\<not> (Y p1 \<ge> Y p2 \<and> X p1 > X p2))"
  by (simp add: before_def)

lemma before_steg_iff: "before_steg p1 p2 = (\<not> (Y p1 \<ge> Y p2 \<and> X p1 \<ge> X p2))"
  by (simp add: before_steg_def)

text \<open>
  The documented \<open>Decode\<close> rejects, before any file is touched, exactly the pairs
  its \<open>before\<close> rejects; a point is \<open>before\<close> itself there.
\<close>

lemma Decode_not_before:
  "\<not> before start endp \<Longrightarrow> Decode e src start endp w = (Inl ErrNotBefore, w)"
  by (simp add: Decode_def)

lemma before_same_point: "before p p"
  by (simp add: before_def)

text \<open>
  \<open>Decode\<close> of \<open>steg/steg.go\<close> rejects every pair with
  \<open>start.Y >= end.Y && start.X >= end.X\<close>, equal points among them, once the source
  has been opened and decoded.
\<close>

lemma Decode_steg_not_before:
  assumes "absPath w src = Some src'" "openRGBA src' w = (Inr img, w1)"
    "\<not> before_steg start endp"
  shows "Decode_steg e src start endp w = (Inl ErrNotBefore, w1)"
  using assms by (simp add: Decode_steg_def)

lemma before_steg_same_point: "\<not> before_steg p p"
  by (simp add: before_steg_def)

text \<open>
  C6 at \<open>start = end = (0, 0)\<close> on a 1 by 1 image: the documented \<open>Decode\<close> does not
  reject the call; it returns the empty message and no error.
\<close>

theorem Decode_accepts_start_equal_end:
  "fst (Decode zeroEncoder ''/in.png'' \<lparr>X = 0, Y = 0\<rparr> \<lparr>X = 0, Y = 0\<rparr> (blackWorld 1 1))
     = Inr []"
  by code_simp

section \<open>The scan of Encode\<close>

text \<open>
  C2 on a 10 by 10 image with \<open>start = (8, 0)\<close> and a message of 2 bytes: both
  bounds checks pass (the end is \<open>(4, 2)\<close>), and the scan panics with an index out of
  range. The rows after the first are entered at column 8 again, the end in column 4
  is never met, and at \<open>i = 48\<close> the scan reads \<open>msg[5]\<close>.
\<close>

theorem Encode_reads_past_message:
  "fst (Encode zeroEncoder ''/in.png'' ''/out.png'' [0x48, 0x69] \<lparr>X = 8, Y = 0\<rparr>
          (blackWorld 10 10)) = Inl PanicIndexOutOfRange"
  by code_simp

text \<open>
  C8 on a 10 by 2 image with \<open>start = (8, 0)\<close> and the one-byte message \<open>0xFF\<close>:
  \<open>Encode\<close> succeeds with end \<open>(6, 1)\<close>, and the red channel of pixel \<open>(8, 1)\<close>,
  which lies after the end, is 0 in the source and 1 in the output.
\<close>

theorem Encode_writes_after_end:
  "fst (Encode zeroEncoder ''/in.png'' ''/out.png'' [0xFF] \<lparr>X = 8, Y = 0\<rparr> (blackWorld 10 2))
     = Inr \<lparr>X = 6, Y = 1\<rparr> \<and>
   redAt (blackWorld 10 2) ''/in.png'' 8 1 = Some 0 \<and>
   redAt (snd (Encode zeroEncoder ''/in.png'' ''/out.png'' [0xFF] \<lparr>X = 8, Y = 0\<rparr>
                 (blackWorld 10 2))) ''/out.png'' 8 1 = Some 1"
  by code_simp

section \<open>Encode, then Decode\<close>

text \<open>
  C1 on a 16 by 1 image with \<open>start = (1, 0)\<close>, bit 0 and the message \<open>"A"\<close>:
  \<open>Encode\<close> succeeds with end \<open>(9, 0)\<close>; \<open>Decode\<close> of the output from \<open>(1, 0)\<close> to
  \<open>(9, 0)\<close> returns the one byte 0, not \<open>"A"\<close>.
\<close>

theorem Decode_Encode_misaligned_start:
  "fst (Encode zeroEncoder ''/in.png'' ''/out.png'' [0x41] \<lparr>X = 1, Y = 0\<rparr> (blackWorld 16 1))
     = Inr \<lparr>X = 9, Y = 0\<rparr> \<and>
   fst (Decode zeroEncoder ''/out.png'' \<lparr>X = 1, Y = 0\<rparr> \<lparr>X = 9, Y = 0\<rparr>
          (snd (Encode zeroEncoder ''/in.png'' ''/out.png'' [0x41] \<lparr>X = 1, Y = 0\<rparr>
                  (blackWorld 16 1))))
     = Inr [0]"
  by code_simp

text \<open>
  Two more ways the round trip is lost. A byte from 128 on comes back as two bytes,
  since \<open>string(n)\<close> is the UTF-8 encoding of \<open>n\<close>; and from a start right of column 0
  a message that runs into the next row is cut short.
\<close>

lemma Decode_Encode_high_byte:
  "fst (Encode zeroEncoder ''/in.png'' ''/out.png'' [0xFF] \<lparr>X = 0, Y = 0\<rparr> (blackWorld 16 1))
     = Inr \<lparr>X = 8, Y = 0\<rparr> \<and>
   fst (Decode zeroEncoder ''/out.png'' \<lparr>X = 0, Y = 0\<rparr> \<lparr>X = 8, Y = 0\<rparr>
          (snd (Encode zeroEncoder ''/in.png'' ''/out.png'' [0xFF] \<lparr>X = 0, Y = 0\<rparr>
                  (blackWorld 16 1))))
     = Inr [0xC3, 0xBF]"
  by code_simp

lemma Decode_Encode_second_row:
  "fst (Encode zeroEncoder ''/in.png'' ''/out.png'' [0x48, 0x69] \<lparr>X = 8, Y = 0\<rparr>
          (blackWorld 16 3))
     = Inr \<lparr>X = 8, Y = 1\<rparr> \<and>
   fst (Decode zeroEncoder ''/out.png'' \<lparr>X = 8, Y = 0\<rparr> \<lparr>X = 8, Y = 1\<rparr>
          (snd (Encode zeroEncoder ''/in.png'' ''/out.png'' [0x48, 0x69] \<lparr>X = 8, Y = 0\<rparr>
                  (blackWorld 16 3))))
     = Inr [0x48]"
  by code_simp

text \<open>A round trip that works: start \<open>(0, 1)\<close> on an 8 by 4 image, bit 7.\<close>

lemma Decode_Encode_example:
  "fst (Encode \<lparr>bit_e = 7\<rparr> ''/in.png'' ''/out.png'' [0x48, 0x69] \<lparr>X = 0, Y = 1\<rparr>
          (blackWorld 8 4))
     = Inr \<lparr>X = 0, Y = 3\<rparr> \<and>
   fst (Decode \<lparr>bit_e = 7\<rparr> ''/out.png'' \<lparr>X = 0, Y = 1\<rparr> \<lparr>X = 0, Y = 3\<rparr>
          (snd (Encode \<lparr>bit_e = 7\<rparr> ''/in.png'' ''/out.png'' [0x48, 0x69] \<lparr>X = 0, Y = 1\<rparr>
                  (blackWorld 8 4))))
     = Inr [0x48, 0x69]"
  by code_simp

section \<open>Rules for the loops\<close>

declare for_range.simps [simp del]

text \<open>What every pass keeps, the whole loop keeps, however it is left.\<close>

lemma for_range_invariant:
  "(\<And>v s s'. P s \<Longrightarrow> body v s = Next s' \<or> body v s = BreakOuter s' \<Longrightarrow> P s') \<Longrightarrow>
   P s \<Longrightarrow> for_range body v hi s = Next s' \<or> for_range body v hi s = BreakOuter s' \<Longrightarrow> P s'"
proof (induction body v hi s rule: for_range.induct)
  case (1 body v hi s)
  show ?case
  proof (cases "v < hi")
    case False
    with "1.prems" show ?thesis
      by (simp add: for_range.simps[of body v hi s])
  next
    case True
    show ?thesis
    proof (cases "body v s")
      case (Next t)
      then have "P t"
        using "1.prems"(1)[of s v t] "1.prems"(2) by simp
      moreover have "for_range body (v + 1) hi t = Next s' \<or>
                     for_range body (v + 1) hi t = BreakOuter s'"
        using "1.prems"(3) True Next by (simp add: for_range.simps[of body v hi s])
      ultimately show ?thesis
        using "1.IH"[OF True Next] "1.prems"(1) by blast
    next
      case (BreakOuter t)
      then have "s' = t"
        using "1.prems"(3) True by (simp add: for_range.simps[of body v hi s])
      then show ?thesis
        using "1.prems"(1)[of s v t] "1.prems"(2) BreakOuter by simp
    next
      case (Panic err)
      with True "1.prems" show ?thesis
        by (simp add: for_range.simps[of body v hi s])
    qed
  qed
qed

lemma scan_invariant:
  assumes "\<And>x y s s'. P s \<Longrightarrow> body x y s = Next s' \<or> body x y s = BreakOuter s' \<Longrightarrow> P s'"
    and "P s" and "scan bounds body s = Next s' \<or> scan bounds body s = BreakOuter s'"
  shows "P s'"
proof -
  have row: "\<And>y t t'. P t \<Longrightarrow>
      for_range (\<lambda>x. body x y) (X (MinP bounds)) (X (MaxP bounds)) t = Next t' \<or>
      for_range (\<lambda>x. body x y) (X (MinP bounds)) (X (MaxP bounds)) t = BreakOuter t' \<Longrightarrow> P t'"
    using assms(1) by (rule for_range_invariant[where P = P])
  show ?thesis
  proof (rule for_range_invariant[where P = P and s = s and v = "Y (MinP bounds)"
        and hi = "Y (MaxP bounds)"
        and body = "\<lambda>y. for_range (\<lambda>x. body x y) (X (MinP bounds)) (X (MaxP bounds))"])
    show "\<And>v t t'. P t \<Longrightarrow>
      for_range (\<lambda>x. body x v) (X (MinP bounds)) (X (MaxP bounds)) t = Next t' \<or>
      for_range (\<lambda>x. body x v) (X (MinP bounds)) (X (MaxP bounds)) t = BreakOuter t' \<Longrightarrow> P t'"
      using row by blast
    show "P s" by (rule assms(2))
    show "for_range (\<lambda>y. for_range (\<lambda>x. body x y) (X (MinP bounds)) (X (MaxP bounds)))
            (Y (MinP bounds)) (Y (MaxP bounds)) s = Next s' \<or>
          for_range (\<lambda>y. for_range (\<lambda>x. body x y) (X (MinP bounds)) (X (MaxP bounds)))
            (Y (MinP bounds)) (Y (MaxP bounds)) s = BreakOuter s'"
      using assms(3) by (simp add: scan_def)
  qed
qed

text \<open>
  A loop whose passes all go on runs to its bound; a loop that goes on up to \<open>b\<close> and
  breaks there is left by the break. \<open>I v\<close> is what holds on arrival at \<open>v\<close>.
\<close>

lemma for_range_all_Next:
  "lo \<le> hi \<Longrightarrow> I lo s \<Longrightarrow>
   (\<And>v t. lo \<le> v \<Longrightarrow> v < hi \<Longrightarrow> I v t \<Longrightarrow> \<exists>t'. body v t = Next t' \<and> I (v + 1) t') \<Longrightarrow>
   \<exists>t'. for_range body lo hi s = Next t' \<and> I hi t'"
proof (induction body lo hi s rule: for_range.induct)
  case (1 body v hi s)
  show ?case
  proof (cases "v < hi")
    case False
    with "1.prems" have "v = hi" by simp
    with "1.prems"(2) show ?thesis
      by (simp add: for_range.simps[of body hi hi s])
  next
    case True
    then obtain t where t: "body v s = Next t" "I (v + 1) t"
      using "1.prems"(2,3) by blast
    have "\<exists>t'. for_range body (v + 1) hi t = Next t' \<and> I hi t'"
    proof (rule "1.IH"[OF True t(1)])
      show "v + 1 \<le> hi" using True by simp
      show "I (v + 1) t" by (rule t(2))
      show "\<And>u t. v + 1 \<le> u \<Longrightarrow> u < hi \<Longrightarrow> I u t \<Longrightarrow> \<exists>t'. body u t = Next t' \<and> I (u + 1) t'"
        using "1.prems"(3) by simp
    qed
    then show ?thesis
      using True t(1) by (simp add: for_range.simps[of body v hi s])
  qed
qed

lemma for_range_break_at:
  "lo \<le> b \<Longrightarrow> b < hi \<Longrightarrow> I lo s \<Longrightarrow>
   (\<And>v t. lo \<le> v \<Longrightarrow> v < b \<Longrightarrow> I v t \<Longrightarrow> \<exists>t'. body v t = Next t' \<and> I (v + 1) t') \<Longrightarrow>
   (\<And>t. I b t \<Longrightarrow> \<exists>t'. body b t = BreakOuter t' \<and> Q t') \<Longrightarrow>
   \<exists>t'. for_range body lo hi s = BreakOuter t' \<and> Q t'"
proof (induction body lo hi s rule: for_range.induct)
  case (1 body v hi s)
  have vhi: "v < hi" using "1.prems"(1,2) by simp
  show ?case
  proof (cases "v = b")
    case True
    then obtain t' where "body v s = BreakOuter t'" "Q t'"
      using "1.prems"(3,5) by blast
    then show ?thesis
      using vhi by (simp add: for_range.simps[of body v hi s])
  next
    case False
    then have vb: "v < b" using "1.prems"(1) by simp
    then obtain t where t: "body v s = Next t" "I (v + 1) t"
      using "1.prems"(3,4) by blast
    have "\<exists>t'. for_range body (v + 1) hi t = BreakOuter t' \<and> Q t'"
    proof (rule "1.IH"[OF vhi t(1)])
      show "v + 1 \<le> b" using vb by simp
      show "b < hi" by (rule "1.prems"(2))
      show "I (v + 1) t" by (rule t(2))
      show "\<And>u t. v + 1 \<le> u \<Longrightarrow> u < b \<Longrightarrow> I u t \<Longrightarrow> \<exists>t'. body u t = Next t' \<and> I (u + 1) t'"
        using "1.prems"(4) by simp
      show "\<And>t. I b t \<Longrightarrow> \<exists>t'. body b t = BreakOuter t' \<and> Q t'"
        by (rule "1.prems"(5))
    qed
    then show ?thesis
      using vhi t(1) by (simp add: for_range.simps[of body v hi s])
  qed
qed

text \<open>
  The two loops over a rectangle at the origin, seen as one walk along the linear
  positions \<open>y * W + x\<close>, up to the position where the body breaks.
\<close>

lemma scan_break_at:
  fixes W H ex ey :: int
  assumes W: "0 < W" and ex: "0 \<le> ex" "ex < W" and ey: "0 \<le> ey" "ey < H"
    and init: "Inv 0 s"
    and step: "\<And>x y t. 0 \<le> x \<Longrightarrow> x < W \<Longrightarrow> 0 \<le> y \<Longrightarrow> y < H \<Longrightarrow> y * W + x < ey * W + ex \<Longrightarrow>
                 Inv (y * W + x) t \<Longrightarrow> \<exists>t'. body x y t = Next t' \<and> Inv (y * W + x + 1) t'"
    and brk: "\<And>t. Inv (ey * W + ex) t \<Longrightarrow> body ex ey t = BreakOuter t"
  shows "\<exists>t'. scan \<lparr>MinP = \<lparr>X = 0, Y = 0\<rparr>, MaxP = \<lparr>X = W, Y = H\<rparr>\<rparr> body s = BreakOuter t'
            \<and> Inv (ey * W + ex) t'"
proof -
  let ?row = "\<lambda>y. for_range (\<lambda>x. body x y) 0 W"
  have full_row: "\<exists>t'. ?row y t = Next t' \<and> Inv ((y + 1) * W) t'"
    if y: "0 \<le> y" "y < ey" and t: "Inv (y * W) t" for y t
  proof -
    have le: "(y + 1) * W \<le> ey * W"
      using y W by (intro mult_right_mono) simp_all
    have "\<exists>t'. for_range (\<lambda>x. body x y) 0 W t = Next t' \<and> Inv (y * W + W) t'"
    proof (rule for_range_all_Next[where I = "\<lambda>x. Inv (y * W + x)"])
      show "0 \<le> W" using W by simp
      show "Inv (y * W + 0) t" using t by simp
      fix x u assume x: "0 \<le> x" "x < W" and u: "Inv (y * W + x) u"
      have "y * W + x < ey * W + ex"
        using le x ex by (simp add: algebra_simps)
      then show "\<exists>t'. body x y u = Next t' \<and> Inv (y * W + (x + 1)) t'"
        using step[OF x y(1) _ _ u] y ey by (simp add: add.assoc)
    qed
    then show ?thesis by (simp add: algebra_simps)
  qed
  have last_row: "\<exists>t'. ?row ey t = BreakOuter t' \<and> Inv (ey * W + ex) t'"
    if t: "Inv (ey * W) t" for t
  proof (rule for_range_break_at[where I = "\<lambda>x. Inv (ey * W + x)"])
    show "0 \<le> ex" "ex < W" by (rule ex)+
    show "Inv (ey * W + 0) t" using t by simp
    show "\<And>x u. 0 \<le> x \<Longrightarrow> x < ex \<Longrightarrow> Inv (ey * W + x) u \<Longrightarrow>
            \<exists>t'. body x ey u = Next t' \<and> Inv (ey * W + (x + 1)) t'"
      using step[of _ ey] ex ey by (simp add: add.assoc)
    show "\<And>u. Inv (ey * W + ex) u \<Longrightarrow> \<exists>t'. body ex ey u = BreakOuter t' \<and> Inv (ey * W + ex) t'"
      using brk by simp
  qed
  have "\<exists>t'. for_range ?row 0 H s = BreakOuter t' \<and> Inv (ey * W + ex) t'"
  proof (rule for_range_break_at[where I = "\<lambda>y. Inv (y * W)"])
    show "0 \<le> ey" "ey < H" by (rule ey)+
    show "Inv (0 * W) s" using init by simp
    show "\<And>y t. 0 \<le> y \<Longrightarrow> y < ey \<Longrightarrow> Inv (y * W) t \<Longrightarrow> \<exists>t'. ?row y t = Next t' \<and> Inv ((y + 1) * W) t'"
      by (rule full_row)
    show "\<And>t. Inv (ey * W) t \<Longrightarrow> \<exists>t'. ?row ey t = BreakOuter t' \<and> Inv (ey * W + ex) t'"
      by (rule last_row)
  qed
  then show ?thesis
    by (simp add: scan_def)
qed

section \<open>What the scan of Encode leaves alone\<close>

lemma ucast_widen: "(ucast (widen c) :: byte) = c"
  by (rule bit_word_eqI) (auto simp: widen_def Let_def bit_simps)

lemma encode_body_frame:
  assumes "frame_ok start img (img_enc s)"
    and "encode_body e msg start endp offset x y s = Next s' \<or>
         encode_body e msg start endp offset x y s = BreakOuter s'"
  shows "frame_ok start img (img_enc s')"
  using assms
  by (auto simp: encode_body_def frame_ok_def Let_def RGBA_of_def RGBA_At_def RGBA_Set_def
      ucast_widen split: if_splits prod.splits)

text \<open>
  Whenever the scan of \<open>Encode\<close> ends without a panic, for every start, end and
  message: the green, blue and alpha channel of every pixel are as before, and so is
  every pixel left of the column of \<open>start\<close>, above its row or outside the rectangle.
  Nothing is said about the pixels right of that column in the rows after the end.
\<close>

lemma encode_scan_frame:
  assumes "encode_scan e msg start endp img = Inr img'"
  shows "frame_ok start img img'"
proof -
  let ?s0 = "\<lparr>i_enc = 0, tmp_enc = zeroBits, img_enc = img\<rparr>"
  let ?body = "encode_body e msg start endp (offsetFromMin (Rect img) start)"
  obtain s' where s': "scan (Rect img) ?body ?s0 = Next s' \<or>
                       scan (Rect img) ?body ?s0 = BreakOuter s'"
    and img': "img' = img_enc s'"
    using assms by (auto simp: encode_scan_def Let_def split: flow.splits)
  have "frame_ok start img (img_enc s')"
  proof (rule scan_invariant[where P = "\<lambda>s. frame_ok start img (img_enc s)" and body = ?body
        and s = ?s0 and bounds = "Rect img"])
    show "\<And>x y s s'. frame_ok start img (img_enc s) \<Longrightarrow>
        ?body x y s = Next s' \<or> ?body x y s = BreakOuter s' \<Longrightarrow> frame_ok start img (img_enc s')"
      by (rule encode_body_frame)
    show "frame_ok start img (img_enc ?s0)"
      by (simp add: frame_ok_def)
    show "scan (Rect img) ?body ?s0 = Next s' \<or> scan (Rect img) ?body ?s0 = BreakOuter s'"
      by (rule s')
  qed
  then show ?thesis
    by (simp add: img')
qed

text \<open>
  The same for a whole call: when \<open>Encode\<close> succeeds on a source of width \<open>wd\<close> and
  height \<open>ht\<close>, the destination holds an image of that size whose green, blue and
  alpha channels are those of the source, as are the pixels left of the column of
  \<open>start\<close> and above its row.
\<close>

lemma openRGBA_Inr:
  assumes "openRGBA path w = (Inr img, w1)" "files w path = Some (PngRGBA wd ht pix)"
  shows "img = \<lparr>Rect = \<lparr>MinP = \<lparr>X = 0, Y = 0\<rparr>, MaxP = \<lparr>X = wd, Y = ht\<rparr>\<rparr>, Pix = pix\<rparr>
         \<and> w1 = w\<lparr>trace := trace w @ [EvOpen path]\<rparr> \<and> 0 < wd \<and> 0 < ht"
  using assms by (auto simp: openRGBA_def png_Decode_def Let_def split: if_splits)

lemma createPNG_None:
  assumes "createPNG path img w = (None, w')"
    "Rect img = \<lparr>MinP = \<lparr>X = 0, Y = 0\<rparr>, MaxP = \<lparr>X = wd, Y = ht\<rparr>\<rparr>"
  shows "files w' path = Some (PngRGBA wd ht (\<lambda>(x, y). Pix img (x, y)))"
  using assms
  by (auto simp: createPNG_def png_Encode_def Let_def split: if_splits sum.splits)

lemma Encode_keeps_other_channels:
  assumes enc: "Encode e src dst msg start w = (Inr endp, w')"
    and paths: "absPath w src = Some src'" "absPath w dst = Some dst'"
    and png: "files w src' = Some (PngRGBA wd ht pix)"
  shows "\<exists>pix'. files w' dst' = Some (PngRGBA wd ht pix') \<and>
           (\<forall>x y. G (pix' (x, y)) = G (pix (x, y)) \<and>
                  B (pix' (x, y)) = B (pix (x, y)) \<and>
                  A (pix' (x, y)) = A (pix (x, y)) \<and>
                  (x < X start \<or> y < Y start \<longrightarrow> pix' (x, y) = pix (x, y)))"
proof -
  let ?r = "\<lparr>MinP = \<lparr>X = 0, Y = 0\<rparr>, MaxP = \<lparr>X = wd, Y = ht\<rparr>\<rparr>"
  obtain img w1 where op: "openRGBA src' w = (Inr img, w1)"
    using enc paths
    by (auto simp: Encode_def Encode_steg_def split: if_splits prod.splits sum.splits)
  then have img: "img = \<lparr>Rect = ?r, Pix = pix\<rparr>"
    using openRGBA_Inr[OF op png] by simp
  obtain img' where sc: "encode_scan e msg start endp img = Inr img'"
    and cr: "createPNG dst' img' w1 = (None, w')"
    using enc paths op
    by (auto simp: Encode_def Encode_steg_def Let_def
        split: if_splits prod.splits sum.splits option.splits)
  have fr: "frame_ok start img img'"
    using sc by (rule encode_scan_frame)
  then have "Rect img' = ?r"
    by (simp add: frame_ok_def img)
  then have "files w' dst' = Some (PngRGBA wd ht (\<lambda>(x, y). Pix img' (x, y)))"
    using cr by (rule createPNG_None[rotated])
  then show ?thesis
    using fr by (auto simp: frame_ok_def img)
qed

section \<open>The round trip from an aligned start\<close>

text \<open>
  The counter \<open>i\<close> of the scans, a 64-bit word, at a linear position below \<open>2^64\<close>.
\<close>

lemma unat_word_of_int_uint:
  "0 \<le> L \<Longrightarrow> L < 2 ^ 64 \<Longrightarrow> unat (word_of_int L :: uint) = nat L"
  by (simp add: unat_eq_nat_uint uint_word_of_int_eq take_bit_int_eq_self)

lemma unat_uint_mod8: "0 \<le> L \<Longrightarrow> L < 2 ^ 64 \<Longrightarrow> unat ((word_of_int L :: uint) mod 8) = nat (L mod 8)"
  by (simp add: unat_mod unat_word_of_int_uint nat_mod_distrib)

lemma uint_mod8_eq_0: "0 \<le> L \<Longrightarrow> L < 2 ^ 64 \<Longrightarrow> ((word_of_int L :: uint) mod 8 = 0) = (L mod 8 = 0)"
proof -
  assume L: "0 \<le> L" "L < 2 ^ 64"
  have "((word_of_int L :: uint) mod 8 = 0) = (unat ((word_of_int L :: uint) mod 8) = 0)"
    by (simp add: unat_eq_zero)
  also have "\<dots> = (L mod 8 = 0)"
    using L by (simp add: unat_uint_mod8) presburger
  finally show ?thesis .
qed

lemma unat_uint_div8: "0 \<le> d \<Longrightarrow> d < 2 ^ 64 \<Longrightarrow> unat ((word_of_int d :: uint) div 8) = nat (d div 8)"
  by (simp add: unat_div unat_word_of_int_uint nat_div_distrib)

text \<open>Setting, clearing and testing the payload bit, for a bit in 0..7.\<close>

lemma red_bit_set: "0 \<le> b \<Longrightarrow> b \<le> 7 \<Longrightarrow> bit (ucast (widen c OR word_of_int (pow 2 b)) :: byte) (nat b)"
  by (auto simp add: pow_def bit_simps)

lemma red_bit_cleared: "0 \<le> b \<Longrightarrow> b \<le> 7 \<Longrightarrow> \<not> bit (ucast (ucast ((ucast (widen c) :: byte) AND NOT (word_of_int (pow 2 b))) :: uint32) :: byte) (nat b)"
  by (auto simp add: pow_def bit_simps)

lemma red_bit_test: "0 \<le> b \<Longrightarrow> b \<le> 7 \<Longrightarrow> ((ucast (widen c) :: byte) AND word_of_int (pow 2 b) = 0) = (\<not> bit c (nat b))"
  by (simp add: pow_def ucast_widen and_exp_eq_0_iff_not_bit)

text \<open>Steps of 1 through the groups of 8 bits.\<close>

lemma mod8_below_7: "d mod 8 \<noteq> 7 \<Longrightarrow> d mod 8 + 1 < 8" for d :: int
  using pos_mod_bound[of 8 d] by linarith

lemma next8_last: "d mod 8 = 7 \<Longrightarrow> (d + 1) div 8 = d div 8 + 1" for d :: int
  using div_add1_eq[of d 1 8] by simp

lemma next8_div: "d mod 8 \<noteq> 7 \<Longrightarrow> (d + 1) div 8 = d div 8" for d :: int
  using mod8_below_7[of d] div_add1_eq[of d 1 8] by simp

lemma next8_mod: "d mod 8 \<noteq> 7 \<Longrightarrow> (d + 1) mod 8 = d mod 8 + 1" for d :: int
  using mod8_below_7[of d] mod_add_left_eq[of d 8 1] by simp

lemma next8_first: "d mod 8 = 7 \<Longrightarrow> (d + 1) mod 8 = 0" for d :: int
  using mod_add_left_eq[of d 8 1] by simp

lemma prev8_div: "d mod 8 \<noteq> 0 \<Longrightarrow> (d - 1) div 8 = d div 8" for d :: int
proof -
  assume "d mod 8 \<noteq> 0"
  then have "(d - 1) mod 8 \<noteq> 7"
    using next8_first[of "d - 1"] by auto
  then have "((d - 1) + 1) div 8 = (d - 1) div 8"
    by (rule next8_div)
  then show ?thesis by simp
qed

lemma mod8_shift: "off mod 8 = 0 \<Longrightarrow> L mod 8 = (L - off) mod 8" for L off :: int
  using mod_diff_right_eq[of L off 8] by simp

lemma div8_nonpos: "d \<le> 0 \<Longrightarrow> d div 8 \<le> 0" for d :: int
  using zdiv_mono1[of d 0 8] by simp

lemma linear_div_mod:
  fixes W x y :: int
  assumes "0 < W" "0 \<le> x" "x < W"
  shows "(y * W + x) mod W = x" "(y * W + x) div W = y"
  using assms by simp_all

lemma linear_inj:
  fixes W x y p :: int
  assumes "0 < W" "0 \<le> x" "x < W" "p mod W = x" "p div W = y"
  shows "p = y * W + x"
  using assms by (metis mult.commute mult_div_mod_eq)

text \<open>One pass of the body of \<open>Encode\<close>: before the message, and inside it.\<close>

lemma encode_body_skip:
  assumes "x < X start \<or> y < Y start" "L < off" "enc_inv e msg r W off L t"
  shows "\<exists>t'. encode_body e msg start endp offset x y t = Next t' \<and> enc_inv e msg r W off (L + 1) t'"
  using assms by (auto simp: encode_body_def enc_inv_def carries_def)

lemma encode_body_write:
  fixes W x y L off :: int
  assumes W: "0 < W" and x: "0 \<le> x" "x < W" and y: "0 \<le> y" "y < H"
    and L: "L = y * W + x" and r: "r = \<lparr>MinP = \<lparr>X = 0, Y = 0\<rparr>, MaxP = \<lparr>X = W, Y = H\<rparr>\<rparr>"
    and off: "0 \<le> off" "off mod 8 = 0" "off \<le> L" "L < off + int (length msg) * 8" "L < 2 ^ 64"
    and b: "0 \<le> bit_e e" "bit_e e \<le> 7"
    and noskip: "\<not> (x < X start \<or> y < Y start)" and noend: "\<not> (x = X endp \<and> y = Y endp)"
    and inv: "enc_inv e msg r W off L t"
  shows "\<exists>t'. encode_body e msg start endp (word_of_int off) x y t = Next t'
            \<and> enc_inv e msg r W off (L + 1) t'"
proof -
  define d where "d = L - off"
  define k where "k = nat (d div 8)"
  have d: "0 \<le> d" "d < int (length msg) * 8" "d < 2 ^ 64"
    using off by (simp_all add: d_def)
  have k: "k < length msg"
    using d by (simp add: k_def)
  have i: "i_enc t = word_of_int L" and len: "length (tmp_enc t) = 8"
    and rect: "Rect (img_enc t) = r"
    using inv by (simp_all add: enc_inv_def)
  have sub: "i_enc t - word_of_int off = (word_of_int d :: uint)"
    by (simp add: i d_def)
  have Lmod: "L mod 8 = d mod 8"
    using mod8_shift[OF off(2), of L] by (simp add: d_def)
  have L0: "0 \<le> L"
    using off by simp
  have m0: "(i_enc t mod 8 = 0) = (d mod 8 = 0)"
    using uint_mod8_eq_0[OF L0 off(5)] by (simp add: i Lmod)
  have um: "unat (i_enc t mod 8) = nat (d mod 8)"
    using unat_uint_mod8[OF L0 off(5)] by (simp add: i Lmod)
  have uk: "unat ((i_enc t - word_of_int off) div 8) = k"
    using d by (simp add: sub unat_uint_div8 k_def)
  define tmp where "tmp = (if d mod 8 = 0 then byteToBits (tmp_enc t) (msg ! k) else tmp_enc t)"
  have tmp_len: "length tmp = 8"
    by (simp add: tmp_def len byteToBits_nth)
  have tmp_nth: "tmp ! j = bit (msg ! k) (7 - j)" if "j < 8" for j
  proof (cases "d mod 8 = 0")
    case True
    then show ?thesis using that by (simp add: tmp_def len byteToBits_nth)
  next
    case False
    then have "d \<noteq> 0" by auto
    then have "off < L" using d by (simp add: d_def)
    moreover have "(d - 1) div 8 = d div 8"
      using False by (rule prev8_div)
    then have "(L - 1 - off) div 8 = d div 8"
      by (simp add: d_def algebra_simps)
    ultimately have "off < L" "(L - 1 - off) div 8 = d div 8" by simp_all
    then show ?thesis
      using inv that False by (simp add: enc_inv_def tmp_def k_def)
  qed
  have dm: "nat (d mod 8) < 8"
    by simp
  have tmp_m: "tmp ! nat (d mod 8) = msg_bit msg d"
    using tmp_nth[OF dm] by (simp add: msg_bit_def k_def)
  have inrect: "In_rect x y (Rect (img_enc t))"
    using x y by (simp add: rect r In_rect_def)
  obtain c where c: "c = RGBA_At (img_enc t) x y" by simp
  define r' where "r' = (if tmp ! nat (d mod 8)
                       then widen (R c) OR word_of_int (pow 2 (bit_e e))
                       else ucast ((ucast (widen (R c)) :: byte) AND NOT (word_of_int (pow 2 (bit_e e)))))"
  define c' where "c' = \<lparr>R = ucast r', G = ucast (widen (G c)), B = ucast (widen (B c)), A = ucast (widen (A c))\<rparr>"
  define t' where "t' = \<lparr>i_enc = i_enc t + 1, tmp_enc = tmp, img_enc = RGBA_Set (img_enc t) x y c'\<rparr>"
  have body: "encode_body e msg start endp (word_of_int off) x y t = Next t'"
    using noskip noend k
    by (simp add: encode_body_def Let_def m0 um uk RGBA_of_def tmp_def[symmetric] c[symmetric]
        r'_def[symmetric] c'_def[symmetric] t'_def[symmetric])
  have pay: "payload_bit e c' = msg_bit msg d"
    using b tmp_m by (simp add: payload_bit_def c'_def r'_def red_bit_set red_bit_cleared)
  have pix': "Pix (img_enc t') = (Pix (img_enc t))((x, y) := c')"
    using inrect by (simp add: t'_def RGBA_Set_def)
  have carries': "carries e msg W off (L + 1) (img_enc t')"
    unfolding carries_def
  proof (intro allI impI)
    fix p assume p: "off \<le> p \<and> p < L + 1"
    show "payload_bit e (Pix (img_enc t') (p mod W, p div W)) = msg_bit msg (p - off)"
    proof (cases "p = L")
      case True
      then show ?thesis
        using linear_div_mod[OF W x, of y] pay by (simp add: pix' L d_def)
    next
      case False
      then have pL: "p < L" using p by simp
      have "(p mod W, p div W) \<noteq> (x, y)"
        using linear_inj[OF W x, of p y] False L by auto
      then have "Pix (img_enc t') (p mod W, p div W) = Pix (img_enc t) (p mod W, p div W)"
        by (auto simp: pix')
      moreover have "payload_bit e (Pix (img_enc t) (p mod W, p div W)) = msg_bit msg (p - off)"
        using inv p pL by (simp add: enc_inv_def carries_def)
      ultimately show ?thesis by simp
    qed
  qed
  have "enc_inv e msg r W off (L + 1) t'"
    unfolding enc_inv_def
  proof (intro conjI impI allI)
    show "i_enc t' = word_of_int (L + 1)" by (simp add: t'_def i)
    show "length (tmp_enc t') = 8" by (simp add: t'_def tmp_len)
    show "Rect (img_enc t') = r" using rect by (simp add: t'_def RGBA_Set_def)
    show "carries e msg W off (L + 1) (img_enc t')" by (rule carries')
    fix j assume "j < (8::nat)"
    then show "tmp_enc t' ! j = bit (msg ! nat ((L + 1 - 1 - off) div 8)) (7 - j)"
      using tmp_nth by (simp add: t'_def k_def d_def)
  qed
  with body show ?thesis by blast
qed

lemma uint_mod8_eq_7: "0 \<le> L \<Longrightarrow> L < 2 ^ 64 \<Longrightarrow> ((word_of_int L :: uint) mod 8 = 7) = (L mod 8 = 7)"
proof -
  assume L: "0 \<le> L" "L < 2 ^ 64"
  have "((word_of_int L :: uint) mod 8 = 7) = (unat ((word_of_int L :: uint) mod 8) = unat (7 :: uint))"
    by (simp only: word_unat_eq_iff)
  also have "\<dots> = (L mod 8 = 7)"
    using L by (simp add: unat_uint_mod8 nat_eq_iff)
  finally show ?thesis .
qed

text \<open>One pass of the body of \<open>Decode\<close>: before the message, and inside it.\<close>

lemma decode_body_skip:
  assumes "x < X start \<or> y < Y start" "L < off" "dec_inv msg off L t"
  shows "\<exists>t'. decode_body e img start endp x y t = Next t' \<and> dec_inv msg off (L + 1) t'"
proof -
  have "(L + 1 - off) div 8 \<le> 0" "(L - off) div 8 \<le> 0"
    using assms(2) by (simp_all add: div8_nonpos)
  then show ?thesis
    using assms by (auto simp: decode_body_def dec_inv_def)
qed

lemma decode_body_read:
  fixes W x y L off :: int
  assumes W: "0 < W" and x: "0 \<le> x" "x < W" and y: "0 \<le> y" "y < H"
    and L: "L = y * W + x"
    and r: "Rect img = \<lparr>MinP = \<lparr>X = 0, Y = 0\<rparr>, MaxP = \<lparr>X = W, Y = H\<rparr>\<rparr>"
    and off: "0 \<le> off" "off mod 8 = 0" "off \<le> L" "L < off + int (length msg) * 8" "L < 2 ^ 64"
    and b: "0 \<le> bit_e e" "bit_e e \<le> 7"
    and ascii: "\<forall>c \<in> set msg. c < 0x80"
    and noskip: "\<not> (x < X start \<or> y < Y start)" and noend: "\<not> (x = X endp \<and> y = Y endp)"
    and img: "carries e msg W off (off + int (length msg) * 8) img"
    and inv: "dec_inv msg off L t"
  shows "\<exists>t'. decode_body e img start endp x y t = Next t' \<and> dec_inv msg off (L + 1) t'"
proof -
  define d where "d = L - off"
  define k where "k = nat (d div 8)"
  define m where "m = nat (d mod 8)"
  have d: "0 \<le> d" "d < int (length msg) * 8"
    using off by (simp_all add: d_def)
  have k: "k < length msg"
    using d by (simp add: k_def)
  have m: "m < 8"
    by (simp add: m_def)
  have i: "i_dec t = word_of_int L" and len: "length (tmp_dec t) = 8"
    and msg_t: "msg_dec t = take k msg"
    and tmp_t: "\<And>j. j < m \<Longrightarrow> tmp_dec t ! j = bit (msg ! k) (7 - j)"
    using inv off(3) by (simp_all add: dec_inv_def d_def k_def m_def)
  have L0: "0 \<le> L"
    using off by simp
  have Lmod: "L mod 8 = d mod 8"
    using mod8_shift[OF off(2), of L] by (simp add: d_def)
  have m7: "(i_dec t mod 8 = 7) = (d mod 8 = 7)"
    using uint_mod8_eq_7[OF L0 off(5)] by (simp add: i Lmod)
  have um: "unat (i_dec t mod 8) = m"
    using unat_uint_mod8[OF L0 off(5)] by (simp add: i Lmod m_def)
  have inrect: "In_rect x y (Rect img)"
    using x y by (simp add: r In_rect_def)
  have "payload_bit e (Pix img (L mod W, L div W)) = msg_bit msg (L - off)"
    using img off(3,4) unfolding carries_def by blast
  then have pix: "payload_bit e (Pix img (x, y)) = msg_bit msg d"
    using linear_div_mod[OF W x, of y] by (simp add: L d_def)
  have test: "((ucast (widen (R (Pix img (x, y)))) :: byte) AND word_of_int (pow 2 (bit_e e)) = 0)
                = (\<not> msg_bit msg d)"
    using pix b by (simp add: red_bit_test payload_bit_def)
  define tmp where "tmp = (tmp_dec t)[m := msg_bit msg d]"
  have tmp_len: "length tmp = 8"
    by (simp add: tmp_def len)
  have tmp_nth: "tmp ! j = bit (msg ! k) (7 - j)" if "j < Suc m" for j
  proof (cases "j = m")
    case True
    then show ?thesis
      using m by (simp add: tmp_def len msg_bit_def k_def m_def)
  next
    case False
    then show ?thesis
      using that tmp_t[of j] by (simp add: tmp_def)
  qed
  define out where "out = (if d mod 8 = 7 then msg_dec t @ string_of_byte (bitsToByte tmp) else msg_dec t)"
  define t' where "t' = \<lparr>i_dec = i_dec t + 1, tmp_dec = tmp, msg_dec = out\<rparr>"
  have body: "decode_body e img start endp x y t = Next t'"
    using noskip noend inrect
    by (simp add: decode_body_def Let_def RGBA_of_def RGBA_At_def test um m7 tmp_def t'_def out_def)
  have out: "out = take (nat ((L + 1 - off) div 8)) msg"
  proof (cases "d mod 8 = 7")
    case True
    then have "m = 7" by (simp add: m_def)
    then have "bitsToByte tmp = msg ! k"
      using tmp_nth tmp_len by (intro bitsToByte_bits_of) simp_all
    moreover have "msg ! k < 0x80"
      using ascii k by simp
    ultimately have "string_of_byte (bitsToByte tmp) = [msg ! k]"
      by (simp add: string_of_byte_def)
    moreover have "(d + 1) div 8 = d div 8 + 1"
      using True by (rule next8_last)
    then have "nat ((L + 1 - off) div 8) = Suc k"
      using d by (simp add: d_def k_def algebra_simps nat_add_distrib)
    ultimately show ?thesis
      using True k by (simp add: out_def msg_t take_Suc_conv_app_nth)
  next
    case False
    then have "(d + 1) div 8 = d div 8"
      by (rule next8_div)
    then have "nat ((L + 1 - off) div 8) = k"
      by (simp add: d_def k_def algebra_simps)
    then show ?thesis
      using False by (simp add: out_def msg_t)
  qed
  have tmp': "tmp ! j = bit (msg ! nat ((L + 1 - off) div 8)) (7 - j)"
    if "j < nat ((L + 1 - off) mod 8)" for j
  proof -
    have d1: "L + 1 - off = d + 1" by (simp add: d_def)
    have "d mod 8 \<noteq> 7"
      using that next8_first[of d] unfolding d1 by auto
    then have "(d + 1) div 8 = d div 8" "(d + 1) mod 8 = d mod 8 + 1"
      by (simp_all add: next8_div next8_mod)
    then show ?thesis
      using that tmp_nth[of j] unfolding d1 by (simp add: k_def m_def nat_add_distrib)
  qed
  have "dec_inv msg off (L + 1) t'"
    unfolding dec_inv_def
  proof (intro conjI impI allI)
    show "i_dec t' = word_of_int (L + 1)" by (simp add: t'_def i)
    show "length (tmp_dec t') = 8" by (simp add: t'_def tmp_len)
    show "msg_dec t' = take (nat ((L + 1 - off) div 8)) msg" by (simp add: t'_def out)
    fix j assume "j < nat ((L + 1 - off) mod 8)"
    then show "tmp_dec t' ! j = bit (msg ! nat ((L + 1 - off) div 8)) (7 - j)"
      using tmp' by (simp add: t'_def)
  qed
  with body show ?thesis by blast
qed

text \<open>
  In a rectangle at the origin \<open>pointAtOffset\<close> adds \<open>n\<close> to the linear position.
\<close>

lemma go_div_nonneg: "0 \<le> a \<Longrightarrow> 0 < b \<Longrightarrow> go_div a b = a div b"
  by (cases "a = 0") (simp_all add: go_div_def)

lemma pointAtOffset_linear:
  assumes "0 < W" "0 \<le> n"
    and "pointAtOffset \<lparr>MinP = \<lparr>X = 0, Y = 0\<rparr>, MaxP = \<lparr>X = W, Y = H\<rparr>\<rparr> p n = Inr q"
  shows "Y q * W + X q = Y p * W + X p + n"
proof -
  have "n div W * W + n mod W = n"
    by simp
  then have "n - n div W * W = n mod W"
    by linarith
  then show ?thesis
    using assms
    by (auto simp: pointAtOffset_def Let_def go_div_nonneg algebra_simps split: if_splits)
qed

text \<open>
  When the start is in column 0, or the message ends inside the row of the start, the
  skip test \<open>x < start.X || y < start.Y\<close> agrees, up to the end of the message, with
  being before the start in row-major order.
\<close>

lemma region_shape:
  fixes W x y sx sy n8 :: int
  assumes W: "0 < W" and x: "0 \<le> x" "x < W" and sx: "0 \<le> sx" "sx < W"
    and shape: "sx = 0 \<or> sx + n8 < W"
    and le: "y * W + x \<le> sy * W + sx + n8"
  shows "(x < sx \<or> y < sy) = (y * W + x < sy * W + sx)"
proof (cases "y < sy")
  case True
  then have "(y + 1) * W \<le> sy * W"
    using W by (intro mult_right_mono) simp_all
  then show ?thesis
    using True x sx by (simp add: algebra_simps)
next
  case False
  show ?thesis
  proof (cases "y = sy")
    case True
    then show ?thesis by simp
  next
    case False
    with \<open>\<not> y < sy\<close> have "sy + 1 \<le> y" by simp
    then have ge: "(sy + 1) * W \<le> y * W"
      using W by (intro mult_right_mono) simp_all
    from shape show ?thesis
    proof
      assume "sx = 0"
      then show ?thesis
        using ge x W \<open>\<not> y < sy\<close> by (simp add: algebra_simps)
    next
      assume "sx + n8 < W"
      then have False
        using ge le x by (simp add: algebra_simps)
      then show ?thesis ..
    qed
  qed
qed

lemma encode_scan_carries:
  fixes W H off :: int
  assumes r: "Rect img = \<lparr>MinP = \<lparr>X = 0, Y = 0\<rparr>, MaxP = \<lparr>X = W, Y = H\<rparr>\<rparr>"
    and W: "0 < W"
    and endp: "0 \<le> X endp" "X endp < W" "0 \<le> Y endp" "Y endp < H"
    and off: "0 \<le> off" "off mod 8 = 0" "offsetFromMin (Rect img) start = word_of_int off"
    and E: "Y endp * W + X endp = off + int (length msg) * 8"
           "off + int (length msg) * 8 < 2 ^ 64"
    and b: "0 \<le> bit_e e" "bit_e e \<le> 7"
    and shape: "\<And>x y. 0 \<le> x \<Longrightarrow> x < W \<Longrightarrow> y * W + x \<le> off + int (length msg) * 8 \<Longrightarrow>
                  (x < X start \<or> y < Y start) = (y * W + x < off)"
  shows "\<exists>img'. encode_scan e msg start endp img = Inr img' \<and> Rect img' = Rect img \<and>
           carries e msg W off (off + int (length msg) * 8) img'"
proof -
  let ?E = "off + int (length msg) * 8"
  let ?s0 = "\<lparr>i_enc = 0, tmp_enc = zeroBits, img_enc = img\<rparr>"
  let ?body = "encode_body e msg start endp (word_of_int off)"
  have "\<exists>t'. scan \<lparr>MinP = \<lparr>X = 0, Y = 0\<rparr>, MaxP = \<lparr>X = W, Y = H\<rparr>\<rparr> ?body ?s0 = BreakOuter t'
           \<and> enc_inv e msg (Rect img) W off (Y endp * W + X endp) t'"
  proof (rule scan_break_at[where Inv = "enc_inv e msg (Rect img) W off", OF W endp])
    show "enc_inv e msg (Rect img) W off 0 ?s0"
      using off(1) by (auto simp: enc_inv_def carries_def zeroBits_def)
  next
    fix x y t
    assume x: "0 \<le> x" "x < W" and y: "0 \<le> y" "y < H"
      and lt: "y * W + x < Y endp * W + X endp"
      and inv: "enc_inv e msg (Rect img) W off (y * W + x) t"
    have sh: "(x < X start \<or> y < Y start) = (y * W + x < off)"
      using shape[OF x, of y] lt E(1) by simp
    show "\<exists>t'. ?body x y t = Next t' \<and> enc_inv e msg (Rect img) W off (y * W + x + 1) t'"
    proof (cases "y * W + x < off")
      case True
      then show ?thesis
        using sh inv by (intro encode_body_skip) simp_all
    next
      case False
      have "\<not> (x = X endp \<and> y = Y endp)"
        using lt by auto
      then show ?thesis
        using False sh inv lt E off b
        by (intro encode_body_write[OF W x y refl r]) simp_all
    qed
  next
    fix t
    assume "enc_inv e msg (Rect img) W off (Y endp * W + X endp) t"
    have "(X endp < X start \<or> Y endp < Y start) = (Y endp * W + X endp < off)"
      using shape[OF endp(1,2), of "Y endp"] E(1) by simp
    then have "\<not> (X endp < X start \<or> Y endp < Y start)"
      using E(1) by simp
    then show "?body (X endp) (Y endp) t = BreakOuter t"
      by (simp add: encode_body_def)
  qed
  then obtain t' where "scan (Rect img) ?body ?s0 = BreakOuter t'"
      "enc_inv e msg (Rect img) W off ?E t'"
    using r E(1) by auto
  then show ?thesis
    by (auto simp: encode_scan_def Let_def off(3) enc_inv_def)
qed

lemma decode_scan_carries:
  fixes W H off :: int
  assumes r: "Rect img = \<lparr>MinP = \<lparr>X = 0, Y = 0\<rparr>, MaxP = \<lparr>X = W, Y = H\<rparr>\<rparr>"
    and W: "0 < W"
    and endp: "0 \<le> X endp" "X endp < W" "0 \<le> Y endp" "Y endp < H"
    and off: "0 \<le> off" "off mod 8 = 0"
    and E: "Y endp * W + X endp = off + int (length msg) * 8"
           "off + int (length msg) * 8 < 2 ^ 64"
    and b: "0 \<le> bit_e e" "bit_e e \<le> 7"
    and ascii: "\<forall>c \<in> set msg. c < 0x80"
    and shape: "\<And>x y. 0 \<le> x \<Longrightarrow> x < W \<Longrightarrow> y * W + x \<le> off + int (length msg) * 8 \<Longrightarrow>
                  (x < X start \<or> y < Y start) = (y * W + x < off)"
    and img: "carries e msg W off (off + int (length msg) * 8) img"
  shows "decode_scan e start endp img = Inr msg"
proof -
  let ?E = "off + int (length msg) * 8"
  let ?s0 = "\<lparr>i_dec = 0, tmp_dec = zeroBits, msg_dec = []\<rparr>"
  let ?body = "decode_body e img start endp"
  have "\<exists>t'. scan \<lparr>MinP = \<lparr>X = 0, Y = 0\<rparr>, MaxP = \<lparr>X = W, Y = H\<rparr>\<rparr> ?body ?s0 = BreakOuter t'
           \<and> dec_inv msg off (Y endp * W + X endp) t'"
  proof (rule scan_break_at[where Inv = "dec_inv msg off", OF W endp])
    have "(- off) div 8 \<le> 0"
      using off(1) by (simp add: div8_nonpos)
    then show "dec_inv msg off 0 ?s0"
      using off by (auto simp: dec_inv_def zeroBits_def)
  next
    fix x y t
    assume x: "0 \<le> x" "x < W" and y: "0 \<le> y" "y < H"
      and lt: "y * W + x < Y endp * W + X endp"
      and inv: "dec_inv msg off (y * W + x) t"
    have sh: "(x < X start \<or> y < Y start) = (y * W + x < off)"
      using shape[OF x, of y] lt E(1) by simp
    show "\<exists>t'. ?body x y t = Next t' \<and> dec_inv msg off (y * W + x + 1) t'"
    proof (cases "y * W + x < off")
      case True
      then show ?thesis
        using sh inv by (intro decode_body_skip) simp_all
    next
      case False
      have "\<not> (x = X endp \<and> y = Y endp)"
        using lt by auto
      then show ?thesis
        using False sh inv lt E off b ascii img
        by (intro decode_body_read[OF W x y refl r]) simp_all
    qed
  next
    fix t
    assume "dec_inv msg off (Y endp * W + X endp) t"
    have "(X endp < X start \<or> Y endp < Y start) = (Y endp * W + X endp < off)"
      using shape[OF endp(1,2), of "Y endp"] E(1) by simp
    then have "\<not> (X endp < X start \<or> Y endp < Y start)"
      using E(1) by simp
    then show "?body (X endp) (Y endp) t = BreakOuter t"
      by (simp add: decode_body_def)
  qed
  then obtain t' where "scan (Rect img) ?body ?s0 = BreakOuter t'" "dec_inv msg off ?E t'"
    using r E(1) by auto
  then show ?thesis
    by (simp add: decode_scan_def dec_inv_def)
qed

lemma in_bounds_linear_less:
  fixes W H :: int
  assumes "0 \<le> X p" "X p < W" "0 \<le> Y p" "Y p < H"
  shows "Y p * W + X p < W * H"
proof -
  have "(Y p + 1) * W \<le> H * W"
    using assms by (intro mult_right_mono) simp_all
  then show ?thesis
    using assms by (simp add: algebra_simps)
qed

text \<open>
  The round trip that does hold. Let the source decode to an RGBA image of width
  \<open>wd\<close> and height \<open>ht\<close> (with \<open>wd * ht\<close> below \<open>2^64\<close>), let the destination be
  writable, the message be non-empty with all bytes below 128, the bit be in 0..7 and
  the start be in bounds; let the linear offset of the start be a multiple of 8; and
  let the start be in column 0 or the message end inside the row of the start. If the
  end point is in bounds, \<open>Encode\<close> succeeds and returns it, and \<open>Decode\<close> of the
  destination from the start to that end returns the message.
\<close>

theorem Decode_Encode_aligned:
  fixes wd ht :: int
  assumes paths: "absPath w src = Some src'" "absPath w dst = Some dst'"
    and png: "files w src' = Some (PngRGBA wd ht pix)" "0 < wd" "0 < ht" "wd * ht < 2 ^ 64"
    and out: "canCreate w dst'" "canWrite w dst'"
    and msg: "msg \<noteq> []" "\<forall>c \<in> set msg. c < 0x80"
    and b: "0 \<le> bit_e e" "bit_e e \<le> 7"
    and start: "inBounds \<lparr>MinP = \<lparr>X = 0, Y = 0\<rparr>, MaxP = \<lparr>X = wd, Y = ht\<rparr>\<rparr> start"
    and aligned: "(Y start * wd + X start) mod 8 = 0"
    and shape: "X start = 0 \<or> X start + int (length msg) * 8 < wd"
    and endp: "pointAtOffset \<lparr>MinP = \<lparr>X = 0, Y = 0\<rparr>, MaxP = \<lparr>X = wd, Y = ht\<rparr>\<rparr> start
                 (int (length msg) * 8) = Inr endp"
              "inBounds \<lparr>MinP = \<lparr>X = 0, Y = 0\<rparr>, MaxP = \<lparr>X = wd, Y = ht\<rparr>\<rparr> endp"
  shows "\<exists>w'. Encode e src dst msg start w = (Inr endp, w') \<and>
              fst (Decode e dst start endp w') = Inr msg"
proof -
  let ?r = "\<lparr>MinP = \<lparr>X = 0, Y = 0\<rparr>, MaxP = \<lparr>X = wd, Y = ht\<rparr>\<rparr>"
  let ?n8 = "int (length msg) * 8"
  define off where "off = Y start * wd + X start"
  define img where "img = \<lparr>Rect = ?r, Pix = pix\<rparr>"
  define w1 where "w1 = w\<lparr>trace := trace w @ [EvOpen src']\<rparr>"
  have s: "0 \<le> X start" "X start < wd" "0 \<le> Y start" "Y start < ht"
    using start by (simp_all add: inBounds_def split: if_splits)
  have en: "0 \<le> X endp" "X endp < wd" "0 \<le> Y endp" "Y endp < ht"
    using endp(2) by (simp_all add: inBounds_def split: if_splits)
  have off0: "0 \<le> off"
    using s png(2) by (simp add: off_def)
  have offw: "offsetFromMin (Rect img) start = word_of_int off"
    by (simp add: offsetFromMin_eq img_def off_def)
  have E: "Y endp * wd + X endp = off + ?n8"
    using pointAtOffset_linear[OF png(2) _ endp(1)] by (simp add: off_def)
  have E64: "off + ?n8 < 2 ^ 64"
    using in_bounds_linear_less[OF en] png(4) E by simp
  have sh: "(x < X start \<or> y < Y start) = (y * wd + x < off)"
    if "0 \<le> x" "x < wd" "y * wd + x \<le> off + ?n8" for x y
    unfolding off_def
    using that(3) by (intro region_shape[OF png(2) that(1,2) s(1,2) shape]) (simp add: off_def)
  have rimg: "Rect img = ?r"
    by (simp add: img_def)
  obtain img' where img': "encode_scan e msg start endp img = Inr img'" "Rect img' = ?r"
      "carries e msg wd off (off + ?n8) img'"
    using encode_scan_carries[OF rimg png(2) en off0 _ offw E E64 b sh] aligned
    by (auto simp: off_def rimg)
  define w2 where "w2 = w1\<lparr>trace := trace w1 @ [EvCreate dst'],
      files := (files w1)(dst' \<mapsto> PngRGBA wd ht (\<lambda>(x, y). Pix img' (x, y)))\<rparr>"
  have op: "openRGBA src' w = (Inr img, w1)"
    using openRGBA_PngRGBA[OF png(1,2,3)] by (simp add: img_def w1_def)
  have cr: "createPNG dst' img' w1 = (None, w2)"
    using out png(2,3) by (simp add: createPNG_def png_Encode_def Let_def img'(2) w1_def w2_def)
  have enc: "Encode e src dst msg start w = (Inr endp, w2)"
    using msg(1) paths op endp start img'(1) cr
    by (simp add: Encode_def Encode_steg_def Let_def rimg)
  define img2 where "img2 = \<lparr>Rect = ?r, Pix = (\<lambda>(x, y). Pix img' (x, y))\<rparr>"
  have op2: "openRGBA dst' w2 = (Inr img2, w2\<lparr>trace := trace w2 @ [EvOpen dst']\<rparr>)"
    by (rule openRGBA_PngRGBA[of w2 dst' wd ht "\<lambda>(x, y). Pix img' (x, y)", folded img2_def])
       (simp_all add: w2_def png)
  have car2: "carries e msg wd off (off + ?n8) img2"
    using img'(3) by (simp add: carries_def img2_def)
  have dec: "decode_scan e start endp img2 = Inr msg"
    using decode_scan_carries[OF _ png(2) en off0 _ E E64 b msg(2) sh car2] aligned
    by (simp add: img2_def off_def)
  have bef: "before start endp"
  proof -
    have "Y start * wd + X start < Y endp * wd + X endp"
      using E msg(1) by (simp add: off_def)
    moreover have "Y endp * wd \<le> Y start * wd" if "Y endp \<le> Y start"
      using that png(2) by (intro mult_right_mono) simp_all
    ultimately show ?thesis
      by (auto simp: before_def)
  qed
  have "absPath w2 dst = Some dst'"
    using paths(2) by (simp add: w2_def w1_def)
  then have "fst (Decode e dst start endp w2) = Inr msg"
    using bef op2 start endp(2) dec by (simp add: Decode_def Let_def img2_def)
  with enc show ?thesis by blast
qed

end
